theory Spec2Isabelle
  imports Complex_Main "HOL-Library.AList" "HOL-Library.Sublist"
begin

section \<open>JavaScript array helpers\<close>

text \<open>
  \<^verbatim>\<open>Array.prototype.slice(start, end)\<close>: a negative index counts from the end, every
  index is clamped to the array, and an empty range gives the empty array.
\<close>

definition js_slice :: "'a list \<Rightarrow> int \<Rightarrow> int \<Rightarrow> 'a list" where
  "js_slice xs start fin =
     (let len = int (length xs);
          k = (if start < 0 then max (len + start) 0 else min start len);
          final = (if fin < 0 then max (len + fin) 0 else min fin len)
      in take (nat (final - k)) (drop (nat k) xs))"

definition js_slice_from :: "'a list \<Rightarrow> int \<Rightarrow> 'a list" where
  "js_slice_from xs start = js_slice xs start (int (length xs))"

text \<open>
  A JavaScript \<^verbatim>\<open>Set\<close> keeps its elements in insertion order and ignores a second
  insertion: a list without duplicates, \<^verbatim>\<open>add\<close> appending a new element.
\<close>

definition set_add :: "'a \<Rightarrow> 'a list \<Rightarrow> 'a list" where
  "set_add x xs = (if x \<in> set xs then xs else xs @ [x])"

section \<open>Exclusion Backoff: \<^verbatim>\<open>PPMModel\<close> of \<^verbatim>\<open>src/models/PPM/google.ts\<close>\<close>

text \<open>
  \<^verbatim>\<open>class ContextNode\<close>: the counters of the tokens seen after a context, the child
  nodes and the number of observations. A \<^verbatim>\<open>Map\<close> is an association list in insertion
  order; \<^verbatim>\<open>Map.set\<close> is \<^const>\<open>AList.update\<close> (an existing key keeps its place, a new
  one goes to the end). JavaScript numbers are modelled exactly: counters as naturals,
  probabilities as reals.
\<close>

datatype ContextNode =
  ContextNode (counts: "(string \<times> nat) list")
              (children: "(string \<times> ContextNode) list")
              (totalCount: nat)

definition new_ContextNode :: ContextNode where
  "new_ContextNode = ContextNode [] [] 0"

definition addToken :: "string \<Rightarrow> ContextNode \<Rightarrow> ContextNode" where
  "addToken token node =
     (let currentCount = (case map_of (counts node) token of None \<Rightarrow> 0 | Some c \<Rightarrow> c)
      in ContextNode (AList.update token (currentCount + 1) (counts node))
                     (children node)
                     (totalCount node + 1))"

definition distinctCount :: "ContextNode \<Rightarrow> nat" where
  "distinctCount node = length (counts node)"

record PPMModel =
  maxOrder :: int
  root :: ContextNode
  vocabulary :: "string list"

definition new_PPMModel :: "int \<Rightarrow> PPMModel" where
  "new_PPMModel order = \<lparr> maxOrder = order, root = new_ContextNode, vocabulary = [] \<rparr>"

fun updateTrie :: "string list \<Rightarrow> string \<Rightarrow> ContextNode \<Rightarrow> ContextNode" where
  "updateTrie [] token currentNode = addToken token currentNode"
| "updateTrie (word # context) token currentNode =
     (let child = (case map_of (children currentNode) word of
                     None \<Rightarrow> new_ContextNode
                   | Some c \<Rightarrow> c)
      in ContextNode (counts currentNode)
                     (AList.update word (updateTrie context token child) (children currentNode))
                     (totalCount currentNode))"

fun findNode :: "ContextNode \<Rightarrow> string list \<Rightarrow> ContextNode option" where
  "findNode currentNode [] = Some currentNode"
| "findNode currentNode (word # context) =
     (case map_of (children currentNode) word of
        None \<Rightarrow> None
      | Some nextNode \<Rightarrow> findNode nextNode context)"

text \<open>
  The inner loop of \<^verbatim>\<open>train\<close>: \<^verbatim>\<open>for (order = 0; order <= maxOrder; order++)\<close>, left
  by \<^verbatim>\<open>break\<close> as soon as \<^verbatim>\<open>i - order < 0\<close>.
\<close>

fun train_orders :: "string list \<Rightarrow> nat \<Rightarrow> int list \<Rightarrow> ContextNode \<Rightarrow> ContextNode" where
  "train_orders tokens i [] r = r"
| "train_orders tokens i (order # rest) r =
     (if int i - order < 0 then r
      else train_orders tokens i rest
             (updateTrie (js_slice tokens (int i - order) (int i)) (tokens ! i) r))"

definition PPMModel_train :: "string list \<Rightarrow> PPMModel \<Rightarrow> PPMModel" where
  "PPMModel_train tokens m =
     (if tokens = [] then m
      else m \<lparr> vocabulary := fold set_add tokens (vocabulary m),
               root := fold (\<lambda>i r. train_orders tokens i [0 .. maxOrder m] r)
                         [0 ..< length tokens] (root m) \<rparr>)"

text \<open>
  \<^verbatim>\<open>handleOrderMinusOne\<close>: the weight that is left is shared equally between the
  vocabulary tokens that are not excluded; nothing happens when the vocabulary has
  no more tokens than the excluded set.
\<close>

definition handleOrderMinusOne ::
  "string list \<Rightarrow> (string \<times> real) list \<Rightarrow> string list \<Rightarrow> real \<Rightarrow> (string \<times> real) list" where
  "handleOrderMinusOne vocab results excluded weight =
     (let vocabSize = int (length vocab);
          observedSize = int (length excluded);
          unpredictedCount = vocabSize - observedSize
      in if unpredictedCount \<le> 0 then results
         else let probPerToken = weight / real_of_int unpredictedCount
              in fold (\<lambda>token res. if token \<in> set excluded then res
                                    else AList.update token probPerToken res)
                      vocab results)"

text \<open>
  The body of the loop over \<^verbatim>\<open>node.counts\<close>: a token that is excluded is skipped, any
  other one gets \<^verbatim>\<open>count / denominator * currentWeight\<close> and is excluded from then on.
\<close>

definition node_step ::
  "real \<Rightarrow> real \<Rightarrow> string \<times> nat \<Rightarrow>
   (string \<times> real) list \<times> string list \<Rightarrow> (string \<times> real) list \<times> string list" where
  "node_step denominator currentWeight tc st =
     (case tc of (token, count) \<Rightarrow>
      case st of (results, excluded) \<Rightarrow>
        if token \<in> set excluded then (results, excluded)
        else let rawProb = real count / denominator;
                 finalProb = rawProb * currentWeight
             in (AList.update token
                   ((case map_of results token of None \<Rightarrow> 0 | Some p \<Rightarrow> p) + finalProb)
                   results,
                 set_add token excluded))"

text \<open>
  The early cutoff of the source is \<^verbatim>\<open>if (currentWeight < 1e-9) return\<close>. The threshold
  is a parameter here: \<open>Some \<epsilon>\<close> is the check against \<open>\<epsilon>\<close>, \<open>None\<close> is the recursion with
  the check taken out.
\<close>

definition CUTOFF :: real where
  "CUTOFF = 1 / 10 ^ 9"

definition below_cutoff :: "real option \<Rightarrow> real \<Rightarrow> bool" where
  "below_cutoff cutoff w = (case cutoff of None \<Rightarrow> False | Some eps \<Rightarrow> w < eps)"

function calculateProbabilitiesRecursive ::
  "real option \<Rightarrow> ContextNode \<Rightarrow> string list \<Rightarrow> string list \<Rightarrow>
   (string \<times> real) list \<times> string list \<Rightarrow> real \<Rightarrow> (string \<times> real) list \<times> string list" where
  "calculateProbabilitiesRecursive cutoff rt vocab context st currentWeight =
     (if below_cutoff cutoff currentWeight then st
      else if context = [] \<and> findNode rt context = None
        then (handleOrderMinusOne vocab (fst st) (snd st) currentWeight, snd st)
      else case findNode rt context of
        None \<Rightarrow>
          calculateProbabilitiesRecursive cutoff rt vocab (tl context) st currentWeight
      | Some node \<Rightarrow>
          let total = real (totalCount node);
              distinct = real (distinctCount node);
              denominator = total + distinct;
              escapeProb = distinct / denominator;
              st' = fold (node_step denominator currentWeight) (counts node) st
          in if context \<noteq> []
             then calculateProbabilitiesRecursive cutoff rt vocab (tl context) st'
                    (currentWeight * escapeProb)
             else (handleOrderMinusOne vocab (fst st') (snd st') (currentWeight * escapeProb),
                   snd st'))"
  by pat_completeness auto
termination
  by (relation "measure (\<lambda>(cutoff, rt, vocab, context, st, w). length context)") auto

text \<open>
  \<^verbatim>\<open>predict\<close>: the history is cut to its last \<^verbatim>\<open>maxOrder\<close> tokens, the recursion starts
  with weight 1 and nothing excluded, and the result is sorted by descending probability
  (\<^verbatim>\<open>Array.prototype.sort\<close> is stable, as \<^const>\<open>sort_key\<close> is).
\<close>

definition PPMModel_predict_with :: "real option \<Rightarrow> PPMModel \<Rightarrow> string list \<Rightarrow> (string \<times> real) list" where
  "PPMModel_predict_with cutoff m history =
     (let relevantHistory = js_slice_from history (- maxOrder m);
          probabilities = fst (calculateProbabilitiesRecursive cutoff (root m) (vocabulary m)
                                 relevantHistory ([], []) 1)
      in sort_key (\<lambda>tp. - snd tp) probabilities)"

definition PPMModel_predict :: "PPMModel \<Rightarrow> string list \<Rightarrow> (string \<times> real) list" where
  "PPMModel_predict = PPMModel_predict_with (Some CUTOFF)"
subsection \<open>Notions used in the proofs about Exclusion Backoff\<close>

text \<open>
  \<open>result_of\<close> is \<^verbatim>\<open>results.get(token) || 0\<close>; \<open>mass\<close> is the sum of all scores of a
  result map. \<open>wf_node V\<close> says of a node and of every node below it that its total is the
  sum of its counters, that its counters have distinct keys, and that these keys are tokens
  of \<open>V\<close>. \<open>linked\<close> says that the tokens with a result are the excluded ones.
  \<open>observed_below\<close> says that every node below a node has at least one counter, and
  \<open>observed\<close> says so of a model, whose root has a counter as soon as the vocabulary
  has a token. \<open>example_root\<close> is the trie of order 1 after training on \<open>a b a b a c\<close>.
\<close>

definition result_of :: "(string \<times> real) list \<Rightarrow> string \<Rightarrow> real" where
  "result_of results token = (case map_of results token of None \<Rightarrow> 0 | Some p \<Rightarrow> p)"

definition mass :: "(string \<times> real) list \<Rightarrow> real" where
  "mass results = sum_list (map snd results)"

fun wf_node :: "string set \<Rightarrow> ContextNode \<Rightarrow> bool" where
  "wf_node V (ContextNode cs ch tot) =
     (tot = sum_list (map snd cs) \<and> distinct (map fst cs) \<and> fst ` set cs \<subseteq> V
      \<and> (\<forall>p \<in> set ch. wf_node V (snd p)))"

definition linked :: "(string \<times> real) list \<times> string list \<Rightarrow> bool" where
  "linked st = (fst ` set (fst st) = set (snd st) \<and> distinct (snd st))"

definition model_ok :: "PPMModel \<Rightarrow> bool" where
  "model_ok m = (wf_node (set (vocabulary m)) (root m) \<and> distinct (vocabulary m))"

definition nonneg :: "(string \<times> real) list \<Rightarrow> bool" where
  "nonneg results = (\<forall>tp \<in> set results. 0 \<le> snd tp)"

fun observed_below :: "ContextNode \<Rightarrow> bool" where
  "observed_below (ContextNode cs ch tot) =
     (\<forall>p \<in> set ch. counts (snd p) \<noteq> [] \<and> observed_below (snd p))"

definition observed :: "PPMModel \<Rightarrow> bool" where
  "observed m = (observed_below (root m) \<and> (vocabulary m \<noteq> [] \<longrightarrow> counts (root m) \<noteq> []))"

definition example_root :: ContextNode where
  "example_root =
     ContextNode [(''a'', 3), (''b'', 2), (''c'', 1)]
       [(''a'', ContextNode [(''b'', 2), (''c'', 1)] [] 3),
        (''b'', ContextNode [(''a'', 2)] [] 2)]
       6"

text \<open>
  \<open>cutoff_model\<close> is the model of order 1 after training on \<open>a\<close> repeated \<open>10^10\<close>
  times and then \<open>b c\<close>: from the context \<open>a\<close> the escape weight is
  \<open>2 / (10^10 + 2)\<close>, less than the cutoff.
\<close>

definition cutoff_model :: PPMModel where
  "cutoff_model =
     \<lparr> maxOrder = 1,
       root = ContextNode [(''a'', 10 ^ 10), (''b'', 1), (''c'', 1)]
                [(''a'', ContextNode [(''a'', 10 ^ 10 - 1), (''b'', 1)] [] (10 ^ 10)),
                 (''b'', ContextNode [(''c'', 1)] [] 1)]
                (10 ^ 10 + 2),
       vocabulary = [''a'', ''b'', ''c''] \<rparr>"

section \<open>The n-gram store: \<^verbatim>\<open>NGramStore\<close>\<close>

text \<open>
  A \<^verbatim>\<open>TokenID\<close> is a number; the tokenizer hands out the naturals in order. The key of
  an n-gram is \<^verbatim>\<open>ids.join(",")\<close>: the decimal numerals of the ids with commas between
  them, the empty string for the empty array.
\<close>

type_synonym TokenID = nat

type_synonym NGramKey = string

definition digit_char :: "nat \<Rightarrow> char" where
  "digit_char d = ''0123456789'' ! d"

fun string_of_nat :: "nat \<Rightarrow> string" where
  "string_of_nat n =
     (if n < 10 then [digit_char n] else string_of_nat (n div 10) @ [digit_char (n mod 10)])"

fun join_comma :: "string list \<Rightarrow> string" where
  "join_comma [] = []"
| "join_comma [x] = x"
| "join_comma (x # y # ys) = x @ '','' @ join_comma (y # ys)"

definition toKey :: "TokenID list \<Rightarrow> NGramKey" where
  "toKey ids = join_comma (map string_of_nat ids)"

record NGramStore =
  ngram_counts :: "NGramKey \<rightharpoonup> nat"
  contextMap :: "NGramKey \<rightharpoonup> TokenID list"
  totalTokens :: nat

definition new_NGramStore :: NGramStore where
  "new_NGramStore = \<lparr> ngram_counts = Map.empty, contextMap = Map.empty, totalTokens = 0 \<rparr>"

text \<open>
  \<^verbatim>\<open>increment\<close>: the counter of the key goes up by one; an n-gram of length 1 also counts
  as one more token; an n-gram of length \<open>> 1\<close> registers its last token as a candidate
  of its context \<^verbatim>\<open>ngram.slice(0, -1)\<close>.
\<close>

definition increment :: "TokenID list \<Rightarrow> NGramStore \<Rightarrow> NGramStore" where
  "increment ngram s =
     (let key = toKey ngram;
          currentCount = (case ngram_counts s key of None \<Rightarrow> 0 | Some c \<Rightarrow> c);
          s1 = s \<lparr> ngram_counts := (ngram_counts s)(key \<mapsto> currentCount + 1) \<rparr>;
          s2 = (if length ngram = 1 then s1 \<lparr> totalTokens := totalTokens s1 + 1 \<rparr> else s1)
      in if length ngram > 1
         then let context = js_slice ngram 0 (- 1);
                  candidate = ngram ! (length ngram - 1);
                  contextKey = toKey context;
                  found = (case contextMap s2 contextKey of None \<Rightarrow> [] | Some cs \<Rightarrow> cs)
              in s2 \<lparr> contextMap := (contextMap s2)(contextKey \<mapsto> set_add candidate found) \<rparr>
         else s2)"

definition getCount :: "NGramStore \<Rightarrow> TokenID list \<Rightarrow> nat" where
  "getCount s ngram = (case ngram_counts s (toKey ngram) of None \<Rightarrow> 0 | Some c \<Rightarrow> c)"

definition getTotalTokens :: "NGramStore \<Rightarrow> nat" where
  "getTotalTokens s = totalTokens s"

definition getCandidates :: "NGramStore \<Rightarrow> TokenID list \<Rightarrow> TokenID list" where
  "getCandidates s context = (case contextMap s (toKey context) of None \<Rightarrow> [] | Some cs \<Rightarrow> cs)"


section \<open>The tokenizer: \<^verbatim>\<open>AdvancedTokenizer\<close>\<close>

text \<open>
  A text is the list of its Unicode code points, the unit the regular expression of the
  tokenizer works on (flag \<^verbatim>\<open>u\<close>). \<^verbatim>\<open>String.prototype.length\<close> counts UTF-16 code
  units: two for a code point beyond the basic plane.
\<close>

type_synonym codepoint = nat

definition js_length :: "codepoint list \<Rightarrow> nat" where
  "js_length s = sum_list (map (\<lambda>c. if c \<ge> 65536 then 2 else 1) s)"

text \<open>
  The Unicode tables are not code of the repository; they are parameters: the classes
  \<^verbatim>\<open>\p{L}\<close> and \<^verbatim>\<open>\p{N}\<close>, \<^verbatim>\<open>normalize('NFC')\<close> and \<^verbatim>\<open>toLocaleLowerCase('ru')\<close>.
  \<open>ascii\<close> is their restriction to ASCII text, for the examples.
\<close>

record unicode =
  is_Letter :: "codepoint \<Rightarrow> bool"
  is_Number :: "codepoint \<Rightarrow> bool"
  normalize_NFC :: "codepoint list \<Rightarrow> codepoint list"
  toLocaleLowerCase :: "codepoint list \<Rightarrow> codepoint list"

definition ascii :: unicode where
  "ascii = \<lparr> is_Letter = (\<lambda>c. (65 \<le> c \<and> c \<le> 90) \<or> (97 \<le> c \<and> c \<le> 122)),
             is_Number = (\<lambda>c. 48 \<le> c \<and> c \<le> 57),
             normalize_NFC = (\<lambda>s. s),
             toLocaleLowerCase = map (\<lambda>c. if 65 \<le> c \<and> c \<le> 90 then c + 32 else c) \<rparr>"

text \<open>
  The matches of
  \<^verbatim>\<open>/((?:\p{L}[\p{L}-]*\p{L})|\p{L}+|\p{N}+)|([.?!;]+)/gu\<close>, from left to right. At a
  letter, the first alternative takes the longest run of letters and hyphens that ends
  with a letter, and the second one the letter alone when no letter follows in that run;
  at a number, the run of numbers; at one of \<^verbatim>\<open>.?!;\<close> the run of these; any other code
  point is passed over. Code point 45 is the hyphen.
\<close>

datatype match = Word "codepoint list" | Punctuation "codepoint list"

definition is_boundary :: "codepoint \<Rightarrow> bool" where
  "is_boundary c = (c = 46 \<or> c = 63 \<or> c = 33 \<or> c = 59)"

function scan :: "unicode \<Rightarrow> codepoint list \<Rightarrow> match list" where
  "scan u [] = []"
| "scan u (c # cs) =
     (if is_Letter u c then
        let run = takeWhile (\<lambda>x. is_Letter u x \<or> x = 45) cs;
            body = rev (dropWhile (\<lambda>x. \<not> is_Letter u x) (rev run))
        in Word (c # body) # scan u (drop (length body) cs)
      else if is_Number u c then
        let run = takeWhile (is_Number u) cs
        in Word (c # run) # scan u (drop (length run) cs)
      else if is_boundary c then
        let run = takeWhile is_boundary cs
        in Punctuation (c # run) # scan u (drop (length run) cs)
      else scan u cs)"
  by pat_completeness auto
termination
  by (relation "measure (\<lambda>(u, s). length s)") auto

record TokenizerConfig =
  normalizeYo :: bool
  minWordLength :: int

record AdvancedTokenizer =
  wordToId :: "codepoint list \<rightharpoonup> TokenID"
  idToWord :: "codepoint list list"
  UNK_ID :: TokenID
  BOS_ID :: TokenID
  EOS_ID :: TokenID
  config :: TokenizerConfig

text \<open>The special tokens \<^verbatim>\<open><UNK>\<close>, \<^verbatim>\<open><S>\<close> and \<^verbatim>\<open></S>\<close>.\<close>

definition UNK :: "codepoint list" where
  "UNK = [60, 85, 78, 75, 62]"

definition BOS :: "codepoint list" where
  "BOS = [60, 83, 62]"

definition EOS :: "codepoint list" where
  "EOS = [60, 47, 83, 62]"

definition registerToken :: "codepoint list \<Rightarrow> AdvancedTokenizer \<Rightarrow> TokenID \<times> AdvancedTokenizer" where
  "registerToken word tk =
     (case wordToId tk word of
        Some i \<Rightarrow> (i, tk)
      | None \<Rightarrow>
          let i = length (idToWord tk)
          in (i, tk \<lparr> wordToId := (wordToId tk)(word \<mapsto> i), idToWord := idToWord tk @ [word] \<rparr>))"

text \<open>
  The constructor: the defaults \<^verbatim>\<open>normalizeYo: true, minWordLength: 1\<close>, overridden by
  the fields that are given, then the three special tokens in this order.
\<close>

definition new_AdvancedTokenizer :: "bool option \<Rightarrow> int option \<Rightarrow> AdvancedTokenizer" where
  "new_AdvancedTokenizer yo minlen =
     (let cfg = \<lparr> normalizeYo = (case yo of None \<Rightarrow> True | Some b \<Rightarrow> b),
                  minWordLength = (case minlen of None \<Rightarrow> 1 | Some l \<Rightarrow> l) \<rparr>;
          tk0 = \<lparr> wordToId = Map.empty, idToWord = [], UNK_ID = 0, BOS_ID = 0, EOS_ID = 0,
                  config = cfg \<rparr>;
          (unk, tk1) = registerToken UNK tk0;
          (bos, tk2) = registerToken BOS tk1;
          (eos, tk3) = registerToken EOS tk2
      in tk3 \<lparr> UNK_ID := unk, BOS_ID := bos, EOS_ID := eos \<rparr>)"

definition getId :: "AdvancedTokenizer \<Rightarrow> codepoint list \<Rightarrow> TokenID" where
  "getId tk word = (case wordToId tk word of None \<Rightarrow> UNK_ID tk | Some i \<Rightarrow> i)"

definition getWord :: "AdvancedTokenizer \<Rightarrow> TokenID \<Rightarrow> codepoint list" where
  "getWord tk i = (if i < length (idToWord tk) then idToWord tk ! i else UNK)"

text \<open>
  \<^verbatim>\<open>preprocessText\<close>: NFC, lower case, and \<^verbatim>\<open>U+0451\<close> replaced by \<^verbatim>\<open>U+0435\<close> when
  \<^verbatim>\<open>normalizeYo\<close> is set.
\<close>

definition preprocessText :: "unicode \<Rightarrow> AdvancedTokenizer \<Rightarrow> codepoint list \<Rightarrow> codepoint list" where
  "preprocessText u tk text =
     (let clean = normalize_NFC u text;
          clean = toLocaleLowerCase u clean
      in if normalizeYo (config tk) then map (\<lambda>c. if c = 1105 then 1077 else c) clean
         else clean)"

text \<open>
  The loop of \<^verbatim>\<open>tokenize\<close> over the matches; the state is the result so far, the flag
  \<^verbatim>\<open>isSentenceStart\<close> and the tokenizer with its vocabulary. A word shorter than
  \<^verbatim>\<open>minWordLength\<close> is passed over (\<^verbatim>\<open>continue\<close>); a run of sentence punctuation closes
  the sentence and opens the next one unless the sentence has just started.
\<close>

fun tokenize_loop ::
  "match list \<Rightarrow> TokenID list \<times> bool \<times> AdvancedTokenizer \<Rightarrow>
   TokenID list \<times> bool \<times> AdvancedTokenizer" where
  "tokenize_loop [] st = st"
| "tokenize_loop (Word word # ms) (result, isSentenceStart, tk) =
     (if int (js_length word) < minWordLength (config tk)
      then tokenize_loop ms (result, isSentenceStart, tk)
      else case registerToken word tk of
             (i, tk') \<Rightarrow> tokenize_loop ms (result @ [i], False, tk'))"
| "tokenize_loop (Punctuation punctuation # ms) (result, isSentenceStart, tk) =
     (if \<not> isSentenceStart
      then tokenize_loop ms (result @ [EOS_ID tk, BOS_ID tk], True, tk)
      else tokenize_loop ms (result, isSentenceStart, tk))"

text \<open>
  \<^verbatim>\<open>result[result.length - 1]\<close>: the last element, \<^verbatim>\<open>undefined\<close> for the empty array.
\<close>

definition js_last :: "'a list \<Rightarrow> 'a option" where
  "js_last xs = (if xs = [] then None else Some (last xs))"

definition tokenize ::
  "unicode \<Rightarrow> AdvancedTokenizer \<Rightarrow> codepoint list \<Rightarrow> TokenID list \<times> AdvancedTokenizer" where
  "tokenize u tk text =
     (let normalizedText = preprocessText u tk text
      in case tokenize_loop (scan u normalizedText) ([BOS_ID tk], True, tk) of
           (result, isSentenceStart, tk') \<Rightarrow>
             (if js_last result = Some (BOS_ID tk) then butlast result
              else if js_last result \<noteq> Some (EOS_ID tk) then result @ [EOS_ID tk]
              else result,
              tk'))"

text \<open>
  The tokenizer after it has tokenized a sequence of texts, started from the constructor.
\<close>

definition tokenizer_after ::
  "unicode \<Rightarrow> bool option \<Rightarrow> int option \<Rightarrow> codepoint list list \<Rightarrow> AdvancedTokenizer" where
  "tokenizer_after u yo minlen texts =
     fold (\<lambda>text tk. snd (tokenize u tk text)) texts (new_AdvancedTokenizer yo minlen)"

subsection \<open>Notions used in the proofs about the tokenizer\<close>

text \<open>
  \<open>tk_ok\<close>: the markers \<^verbatim>\<open>BOS_ID\<close> and \<^verbatim>\<open>EOS_ID\<close> differ and no other word has got one
  of them. \<open>word_like\<close>: a matched word starts with a letter or a number. \<open>eos_then_bos\<close>:
  every \<open>E\<close> that is not the last element is followed by \<open>B\<close>. \<open>loop_inv\<close> is the
  invariant of the loop of \<^verbatim>\<open>tokenize\<close>. \<open>extends\<close>: the second tokenizer knows every
  word of the first one under the same id and has the same markers and configuration.
\<close>

definition tk_ok :: "AdvancedTokenizer \<Rightarrow> bool" where
  "tk_ok tk =
     (BOS_ID tk \<noteq> EOS_ID tk \<and> BOS_ID tk < length (idToWord tk) \<and> EOS_ID tk < length (idToWord tk)
      \<and> (\<forall>w i. wordToId tk w = Some i \<longrightarrow>
             (i = BOS_ID tk \<longrightarrow> w = BOS) \<and> (i = EOS_ID tk \<longrightarrow> w = EOS)))"

definition word_like :: "unicode \<Rightarrow> match \<Rightarrow> bool" where
  "word_like u m =
     (case m of Word w \<Rightarrow> w \<noteq> [] \<and> (is_Letter u (hd w) \<or> is_Number u (hd w))
              | Punctuation p \<Rightarrow> True)"

fun eos_then_bos :: "TokenID \<Rightarrow> TokenID \<Rightarrow> TokenID list \<Rightarrow> bool" where
  "eos_then_bos B E [] = True"
| "eos_then_bos B E [x] = True"
| "eos_then_bos B E (x # y # ys) = ((x = E \<longrightarrow> y = B) \<and> eos_then_bos B E (y # ys))"

definition loop_inv :: "TokenID \<Rightarrow> TokenID \<Rightarrow> TokenID list \<times> bool \<times> AdvancedTokenizer \<Rightarrow> bool" where
  "loop_inv B E st =
     (case st of (r, iss, tk) \<Rightarrow>
        r \<noteq> [] \<and> eos_then_bos B E r \<and> last r \<noteq> E \<and> (iss \<longleftrightarrow> last r = B)
        \<and> (last r = B \<and> 2 \<le> length r \<longrightarrow> last (butlast r) = E)
        \<and> tk_ok tk \<and> BOS_ID tk = B \<and> EOS_ID tk = E)"

definition extends :: "AdvancedTokenizer \<Rightarrow> AdvancedTokenizer \<Rightarrow> bool" where
  "extends tk tk' =
     ((\<forall>w i. wordToId tk w = Some i \<longrightarrow> wordToId tk' w = Some i)
      \<and> BOS_ID tk' = BOS_ID tk \<and> EOS_ID tk' = EOS_ID tk \<and> config tk' = config tk)"
section \<open>Multiplicative Backoff: \<^verbatim>\<open>StupidBackoffModel\<close>\<close>

text \<open>
  The model owns a tokenizer, a store and its order \<^verbatim>\<open>n\<close>. The constructor takes any
  order.
\<close>

record StupidBackoffModel =
  sb_tokenizer :: AdvancedTokenizer
  sb_store :: NGramStore
  sb_n :: int

definition new_StupidBackoffModel ::
  "int \<Rightarrow> AdvancedTokenizer \<Rightarrow> NGramStore \<Rightarrow> StupidBackoffModel" where
  "new_StupidBackoffModel order tokenizer store =
     \<lparr> sb_tokenizer = tokenizer, sb_store = store, sb_n = order \<rparr>"

definition ALPHA :: real where
  "ALPHA = 4 / 10"

text \<open>
  The loops of \<^verbatim>\<open>train\<close> over the token array: at every position \<open>i\<close> and for every
  \<open>k\<close> from 1 to the order, the n-gram \<^verbatim>\<open>tokens.slice(i - k + 1, i + 1)\<close> is counted,
  unless \<^verbatim>\<open>i - k + 1 < 0\<close>.
\<close>

definition train_position :: "int \<Rightarrow> TokenID list \<Rightarrow> nat \<Rightarrow> NGramStore \<Rightarrow> NGramStore" where
  "train_position n tokens i s =
     fold (\<lambda>k s. if int i - k + 1 < 0 then s
                  else increment (js_slice tokens (int i - k + 1) (int i + 1)) s)
          [1 .. n] s"

definition train_tokens :: "int \<Rightarrow> TokenID list \<Rightarrow> NGramStore \<Rightarrow> NGramStore" where
  "train_tokens n tokens s = fold (train_position n tokens) [0 ..< length tokens] s"

definition StupidBackoffModel_train ::
  "unicode \<Rightarrow> codepoint list \<Rightarrow> StupidBackoffModel \<Rightarrow> StupidBackoffModel" where
  "StupidBackoffModel_train u text m =
     (case tokenize u (sb_tokenizer m) text of
        (tokens, tk) \<Rightarrow>
          m \<lparr> sb_tokenizer := tk, sb_store := train_tokens (sb_n m) tokens (sb_store m) \<rparr>)"

text \<open>
  \<^verbatim>\<open>getScore\<close>: the relative frequency of the unigram for the empty context; the ratio
  of the two counters when the n-gram was seen, 0 when the counter of the context is 0;
  \<^verbatim>\<open>ALPHA\<close> times the score for the context without its oldest token otherwise.
\<close>

function getScore :: "NGramStore \<Rightarrow> TokenID \<Rightarrow> TokenID list \<Rightarrow> real" where
  "getScore store candidate context =
     (let order = length context + 1;
          ngram = context @ [candidate];
          countNgram = getCount store ngram
      in if order = 1
         then let total = getTotalTokens store
              in if total > 0 then real countNgram / real total else 0
         else if countNgram > 0
         then let countContext = getCount store context
              in if countContext > 0 then real countNgram / real countContext else 0
         else let shortenedContext = js_slice_from context 1
              in ALPHA * getScore store candidate shortenedContext)"
  by pat_completeness auto
termination
  by (relation "measure (\<lambda>(store, candidate, context). length context)")
     (auto simp: js_slice_from_def js_slice_def)

subsection \<open>Notions used in the proofs about the store and the training\<close>

text \<open>
  \<open>position_ngrams\<close> lists the n-grams that \<^verbatim>\<open>train\<close> counts at one position,
  \<open>upto_ngrams\<close> those of the positions below \<open>m\<close>, \<open>all_ngrams\<close> those of a whole token
  array. \<open>prefix_counted\<close> says that no n-gram of length \<open>\<ge> 2\<close> is counted more often
  than the n-gram without its last token.
\<close>

definition position_ngrams :: "int \<Rightarrow> TokenID list \<Rightarrow> nat \<Rightarrow> TokenID list list" where
  "position_ngrams n tokens i =
     map (\<lambda>k. js_slice tokens (int i - k + 1) (int i + 1))
         (filter (\<lambda>k. \<not> int i - k + 1 < 0) [1 .. n])"

definition upto_ngrams :: "int \<Rightarrow> TokenID list \<Rightarrow> nat \<Rightarrow> TokenID list list" where
  "upto_ngrams n tokens m = concat (map (position_ngrams n tokens) [0 ..< m])"

definition all_ngrams :: "int \<Rightarrow> TokenID list \<Rightarrow> TokenID list list" where
  "all_ngrams n tokens = upto_ngrams n tokens (length tokens)"

definition prefix_counted :: "NGramStore \<Rightarrow> bool" where
  "prefix_counted s = (\<forall>g. 2 \<le> length g \<longrightarrow> getCount s g \<le> getCount s (butlast g))"

text \<open>
  The model after a sequence of \<^verbatim>\<open>train\<close> calls, started with a new store. The example
  is the model of order 2 after training on the text \<^verbatim>\<open>ab cd\<close>, whose tokens are
  \<open>[1, 3, 4, 2]\<close>.
\<close>

definition StupidBackoffModel_trained ::
  "unicode \<Rightarrow> int \<Rightarrow> AdvancedTokenizer \<Rightarrow> codepoint list list \<Rightarrow> StupidBackoffModel" where
  "StupidBackoffModel_trained u n tk texts =
     fold (StupidBackoffModel_train u) texts (new_StupidBackoffModel n tk new_NGramStore)"

definition example_text :: "codepoint list" where
  "example_text = [97, 98, 32, 99, 100]"

definition example_store :: NGramStore where
  "example_store =
     sb_store (StupidBackoffModel_trained ascii 2 (new_AdvancedTokenizer None None) [example_text])"

section \<open>The class \<^verbatim>\<open>PPM\<close> of \<^verbatim>\<open>src/models/PPM/ppm.ts\<close>: its constructor\<close>

text \<open>
  \<^verbatim>\<open>if (order <= 0) throw new Error("Order must be > 0")\<close>: the only one of the three
  model constructors that checks the order.
\<close>

datatype error = Error string

datatype PPM_ContextNode =
  PPM_ContextNode (ppm_children: "(string \<times> PPM_ContextNode) list")
                  (frequencies: "(string \<times> nat) list")

record PPM =
  ppm_root :: PPM_ContextNode
  ppm_order :: int

definition new_PPM :: "int \<Rightarrow> error + PPM" where
  "new_PPM order =
     (if order \<le> 0 then Inl (Error ''Order must be > 0'')
      else Inr \<lparr> ppm_root = PPM_ContextNode [] [], ppm_order = order \<rparr>)"

section \<open>Exclusion Backoff: one step of the recursion\<close>

lemma node_step_excluded:
  "set (snd (node_step den w tc st)) = insert (fst tc) (set (snd st))"
  by (cases tc; cases st) (auto simp: node_step_def set_add_def Let_def)

lemma fold_node_step_excluded:
  "set (snd (fold (node_step den w) cs st)) = set (snd st) \<union> fst ` set cs"
  by (induction cs arbitrary: st) (auto simp: node_step_excluded)

lemma node_step_other:
  "token \<in> set (snd st) \<or> token \<noteq> fst tc \<Longrightarrow>
   map_of (fst (node_step den w tc st)) token = map_of (fst st) token"
  by (cases tc; cases st) (auto simp: node_step_def Let_def update_conv')

lemma fold_node_step_other:
  "token \<in> set (snd st) \<or> token \<notin> fst ` set cs \<Longrightarrow>
   map_of (fst (fold (node_step den w) cs st)) token = map_of (fst st) token"
proof (induction cs arbitrary: st)
  case Nil
  then show ?case by simp
next
  case (Cons tc cs)
  have "token \<in> set (snd (node_step den w tc st)) \<or> token \<notin> fst ` set cs"
    using Cons.prems by (auto simp: node_step_excluded)
  then have "map_of (fst (fold (node_step den w) cs (node_step den w tc st))) token
             = map_of (fst (node_step den w tc st)) token"
    by (rule Cons.IH)
  also have "\<dots> = map_of (fst st) token"
    using Cons.prems by (intro node_step_other) auto
  finally show ?case by simp
qed

lemma node_step_fresh:
  "fst tc \<notin> set (snd st) \<Longrightarrow>
   map_of (fst (node_step den w tc st)) (fst tc)
     = Some (result_of (fst st) (fst tc) + real (snd tc) / den * w)"
  by (cases tc; cases st) (auto simp: node_step_def Let_def update_conv' result_of_def)

lemma fold_node_step_fresh:
  "distinct (map fst cs) \<Longrightarrow> (token, count) \<in> set cs \<Longrightarrow> token \<notin> set (snd st) \<Longrightarrow>
   map_of (fst (fold (node_step den w) cs st)) token
     = Some (result_of (fst st) token + real count / den * w)"
proof (induction cs arbitrary: st)
  case Nil
  then show ?case by simp
next
  case (Cons tc cs)
  show ?case
  proof (cases "tc = (token, count)")
    case True
    have "token \<notin> fst ` set cs" using Cons.prems(1) True by auto
    then have "map_of (fst (fold (node_step den w) cs (node_step den w tc st))) token
               = map_of (fst (node_step den w tc st)) token"
      by (intro fold_node_step_other) simp
    also have "\<dots> = Some (result_of (fst st) token + real count / den * w)"
      using node_step_fresh[of tc st den w] Cons.prems(3) True by simp
    finally show ?thesis by simp
  next
    case False
    then have mem: "(token, count) \<in> set cs" using Cons.prems(2) by simp
    have "token \<in> fst ` set cs" using mem by force
    then have ne: "fst tc \<noteq> token" using Cons.prems(1) by auto
    have nex: "token \<notin> set (snd (node_step den w tc st))"
      using Cons.prems(3) ne by (auto simp: node_step_excluded)
    have "map_of (fst (fold (node_step den w) cs (node_step den w tc st))) token
          = Some (result_of (fst (node_step den w tc st)) token + real count / den * w)"
      using Cons.prems(1) mem nex by (intro Cons.IH) auto
    moreover have "result_of (fst (node_step den w tc st)) token = result_of (fst st) token"
      using ne node_step_other[of token st tc den w] by (simp add: result_of_def)
    ultimately show ?thesis by simp
  qed
qed

lemma calc_unmatched:
  "\<not> below_cutoff cutoff w \<Longrightarrow> context \<noteq> [] \<Longrightarrow> findNode rt context = None \<Longrightarrow>
   calculateProbabilitiesRecursive cutoff rt vocab context st w
     = calculateProbabilitiesRecursive cutoff rt vocab (tl context) st w"
  by (subst calculateProbabilitiesRecursive.simps) simp

lemma calc_matched:
  "\<not> below_cutoff cutoff w \<Longrightarrow> context \<noteq> [] \<Longrightarrow> findNode rt context = Some node \<Longrightarrow>
   calculateProbabilitiesRecursive cutoff rt vocab context st w
     = calculateProbabilitiesRecursive cutoff rt vocab (tl context)
         (fold (node_step (real (totalCount node) + real (distinctCount node)) w) (counts node) st)
         (w * (real (distinctCount node) / (real (totalCount node) + real (distinctCount node))))"
  by (subst calculateProbabilitiesRecursive.simps) (simp add: Let_def)

lemma calc_below:
  "below_cutoff cutoff w \<Longrightarrow> calculateProbabilitiesRecursive cutoff rt vocab ctx st w = st"
  by (subst calculateProbabilitiesRecursive.simps) simp

lemma calc_root:
  "\<not> below_cutoff cutoff w \<Longrightarrow>
   calculateProbabilitiesRecursive cutoff rt vocab [] st w
     = (handleOrderMinusOne vocab
          (fst (fold (node_step (real (totalCount rt) + real (distinctCount rt)) w) (counts rt) st))
          (snd (fold (node_step (real (totalCount rt) + real (distinctCount rt)) w) (counts rt) st))
          (w * (real (distinctCount rt) / (real (totalCount rt) + real (distinctCount rt)))),
        snd (fold (node_step (real (totalCount rt) + real (distinctCount rt)) w) (counts rt) st))"
  by (subst calculateProbabilitiesRecursive.simps) (simp add: Let_def)

lemma handleOrderMinusOne_excluded:
  "token \<in> set exc \<Longrightarrow> map_of (handleOrderMinusOne vocab res exc w) token = map_of res token"
proof -
  assume t: "token \<in> set exc"
  have u: "map_of (fold (\<lambda>token res. if token \<in> set exc then res else AList.update token p res) vs r)
          token = map_of r token" for p vs r
    using t by (induction vs arbitrary: r) (auto simp: update_conv')
  show ?thesis by (simp add: handleOrderMinusOne_def Let_def u)
qed

lemma calc_excluded:
  "set (snd st) \<subseteq> set (snd (calculateProbabilitiesRecursive cutoff rt vocab ctx st w))
   \<and> (\<forall>token \<in> set (snd st).
         map_of (fst (calculateProbabilitiesRecursive cutoff rt vocab ctx st w)) token
           = map_of (fst st) token)"
proof (induction cutoff rt vocab ctx st w rule: calculateProbabilitiesRecursive.induct)
  case (1 cutoff rt vocab ctx st w)
  show ?case
  proof (cases "below_cutoff cutoff w")
    case True
    then show ?thesis by (simp add: calc_below)
  next
    case nb: False
    show ?thesis
    proof (cases "findNode rt ctx")
      case None
      then have ne: "ctx \<noteq> []" by auto
      show ?thesis
        using "1.IH"(1)[OF nb _ None] ne None calc_unmatched[OF nb ne None, of vocab st]
        by (simp del: calculateProbabilitiesRecursive.simps)
    next
      case (Some node)
      define t where "t = real (totalCount node)"
      define d where "d = real (distinctCount node)"
      define st' where "st' = fold (node_step (t + d) w) (counts node) st"
      have sub: "set (snd st) \<subseteq> set (snd st')" by (auto simp: st'_def fold_node_step_excluded)
      have same: "\<forall>token \<in> set (snd st). map_of (fst st') token = map_of (fst st) token"
        by (simp add: st'_def fold_node_step_other)
      show ?thesis
      proof (cases "ctx = []")
        case True
        then have n: "node = rt" using Some by simp
        have "calculateProbabilitiesRecursive cutoff rt vocab ctx st w
              = (handleOrderMinusOne vocab (fst st') (snd st') (w * (d / (t + d))), snd st')"
          using calc_root[OF nb, of rt vocab st] True by (simp add: st'_def t_def d_def n)
        then show ?thesis
          using sub same
          by (auto simp: handleOrderMinusOne_excluded simp del: calculateProbabilitiesRecursive.simps)
      next
        case False
        have IH: "set (snd st') \<subseteq> set (snd (calculateProbabilitiesRecursive cutoff rt vocab (tl ctx) st'
                                            (w * (d / (t + d)))))
                  \<and> (\<forall>token \<in> set (snd st').
                        map_of (fst (calculateProbabilitiesRecursive cutoff rt vocab (tl ctx) st'
                                       (w * (d / (t + d))))) token
                          = map_of (fst st') token)"
          using nb False Some
          by (intro "1.IH"(2)[where x = "t" and xa = "d" and xb = "t + d" and xc = "d / (t + d)"])
             (auto simp: t_def d_def st'_def)
        have "calculateProbabilitiesRecursive cutoff rt vocab ctx st w
              = calculateProbabilitiesRecursive cutoff rt vocab (tl ctx) st' (w * (d / (t + d)))"
          using calc_matched[OF nb False Some] by (simp add: st'_def t_def d_def)
        then show ?thesis
          using IH sub same by (auto simp del: calculateProbabilitiesRecursive.simps)
      qed
    qed
  qed
qed

lemma calc_node_result:
  assumes nb: "\<not> below_cutoff cutoff w" and f: "findNode rt ctx = Some node"
  shows "\<exists>rest. calculateProbabilitiesRecursive cutoff rt vocab ctx st w = rest
           \<and> set (snd (fold (node_step (real (totalCount node) + real (distinctCount node)) w)
                          (counts node) st)) \<subseteq> set (snd rest)
           \<and> (\<forall>token \<in> set (snd (fold (node_step (real (totalCount node) + real (distinctCount node)) w)
                          (counts node) st)).
                 map_of (fst rest) token
                   = map_of (fst (fold (node_step (real (totalCount node) + real (distinctCount node)) w)
                          (counts node) st)) token)"
proof -
  define st' where
    "st' = fold (node_step (real (totalCount node) + real (distinctCount node)) w) (counts node) st"
  show ?thesis
  proof (cases "ctx = []")
    case True
    then have n: "node = rt" using f by simp
    show ?thesis
      using calc_root[OF nb, of rt vocab st] True
      by (simp add: n handleOrderMinusOne_excluded del: calculateProbabilitiesRecursive.simps)
  next
    case False
    show ?thesis
      using calc_matched[OF nb False f, of vocab st]
            calc_excluded[of st' cutoff rt vocab "tl ctx"]
      by (simp add: st'_def del: calculateProbabilitiesRecursive.simps)
  qed
qed

text \<open>
  Claim C6, as amended. When the weight is below the cutoff, the call returns its state
  as it is: no token gets a contribution, nothing is excluded and nothing is forwarded.
  When the weight is not below the cutoff (or the cutoff is taken out):
  \<^item> at a context of length \<open>\<ge> 1\<close> that no node matches, the call is the call for the
    context without its oldest token with the same results, excluded set and weight;
  \<^item> at a context matched by a node with \<open>t\<close> observations and \<open>d \<ge> 1\<close> distinct
    continuations, the map that the call returns gives every observed token that was not
    excluded its old result plus \<open>count / (t + d) * w\<close>, it gives every token that was
    excluded its old result, and the excluded set that the call returns holds every
    observed token; for a context of length \<open>\<ge> 1\<close> the call is the call for the context
    without its oldest token with weight \<open>w * d / (t + d)\<close>, the observed tokens
    excluded and credited as said and no other result changed.
  (With \<open>d = 0\<close> the denominator of the source is 0 and its quotient is not a number; that
  case is left out.)
\<close>

theorem exclusion_step:
  "(below_cutoff cutoff w \<longrightarrow>
      calculateProbabilitiesRecursive cutoff rt vocab context (results, excluded) w
        = (results, excluded))
   \<and> (\<not> below_cutoff cutoff w \<longrightarrow>
        (context \<noteq> [] \<and> findNode rt context = None \<longrightarrow>
           calculateProbabilitiesRecursive cutoff rt vocab context (results, excluded) w
             = calculateProbabilitiesRecursive cutoff rt vocab (tl context) (results, excluded) w)
      \<and> (\<forall>node. findNode rt context = Some node \<and> distinct (map fst (counts node))
                 \<and> 0 < distinctCount node \<longrightarrow>
            (\<forall>token count. (token, count) \<in> set (counts node) \<and> token \<notin> set excluded \<longrightarrow>
               map_of (fst (calculateProbabilitiesRecursive cutoff rt vocab context
                              (results, excluded) w)) token
                 = Some (result_of results token
                         + real count / (real (totalCount node) + real (distinctCount node)) * w))
          \<and> (\<forall>token. token \<in> set excluded \<longrightarrow>
               map_of (fst (calculateProbabilitiesRecursive cutoff rt vocab context
                              (results, excluded) w)) token
                 = map_of results token)
          \<and> set excluded \<union> fst ` set (counts node)
               \<subseteq> set (snd (calculateProbabilitiesRecursive cutoff rt vocab context
                               (results, excluded) w))
          \<and> (context \<noteq> [] \<longrightarrow>
               (\<exists>results' excluded'.
                  calculateProbabilitiesRecursive cutoff rt vocab context (results, excluded) w
                    = calculateProbabilitiesRecursive cutoff rt vocab (tl context)
                        (results', excluded')
                        (w * (real (distinctCount node)
                              / (real (totalCount node) + real (distinctCount node))))
                \<and> set excluded' = set excluded \<union> fst ` set (counts node)
                \<and> (\<forall>token count. (token, count) \<in> set (counts node) \<and> token \<notin> set excluded \<longrightarrow>
                      map_of results' token
                        = Some (result_of results token
                                + real count / (real (totalCount node) + real (distinctCount node))
                                  * w))
                \<and> (\<forall>token. token \<in> set excluded \<or> token \<notin> fst ` set (counts node) \<longrightarrow>
                      map_of results' token = map_of results token)))))"
proof (intro conjI impI allI)
  assume "below_cutoff cutoff w"
  then show "calculateProbabilitiesRecursive cutoff rt vocab context (results, excluded) w
               = (results, excluded)"
    by (rule calc_below)
next
  assume "\<not> below_cutoff cutoff w" and "context \<noteq> [] \<and> findNode rt context = None"
  then show "calculateProbabilitiesRecursive cutoff rt vocab context (results, excluded) w
              = calculateProbabilitiesRecursive cutoff rt vocab (tl context) (results, excluded) w"
    using calc_unmatched by blast
next
  fix node
  assume nb: "\<not> below_cutoff cutoff w"
    and a: "findNode rt context = Some node \<and> distinct (map fst (counts node))
            \<and> 0 < distinctCount node"
  define den where "den = real (totalCount node) + real (distinctCount node)"
  define st' where "st' = fold (node_step den w) (counts node) (results, excluded)"
  define final where
    "final = calculateProbabilitiesRecursive cutoff rt vocab context (results, excluded) w"
  have ex: "set (snd st') = set excluded \<union> fst ` set (counts node)"
    by (simp add: st'_def fold_node_step_excluded)
  have fresh: "(token, count) \<in> set (counts node) \<Longrightarrow> token \<notin> set excluded \<Longrightarrow>
               map_of (fst st') token = Some (result_of results token + real count / den * w)"
    for token count
    using a fold_node_step_fresh[of "counts node" token count "(results, excluded)" den w]
    by (simp add: st'_def)
  have other: "token \<in> set excluded \<or> token \<notin> fst ` set (counts node) \<Longrightarrow>
               map_of (fst st') token = map_of results token" for token
    using fold_node_step_other[of token "(results, excluded)" "counts node" den w]
    by (simp add: st'_def)
  have keep: "set (snd st') \<subseteq> set (snd final)"
             "\<forall>token \<in> set (snd st'). map_of (fst final) token = map_of (fst st') token"
    using calc_node_result[OF nb conjunct1[OF a], of vocab "(results, excluded)"]
    by (simp_all add: final_def st'_def den_def del: calculateProbabilitiesRecursive.simps)
  {
    fix token count
    assume tc: "(token, count) \<in> set (counts node) \<and> token \<notin> set excluded"
    then have "token \<in> set (snd st')" using ex by force
    then have "map_of (fst final) token = map_of (fst st') token" using keep(2) by blast
    then show "map_of (fst (calculateProbabilitiesRecursive cutoff rt vocab context
                              (results, excluded) w)) token
                 = Some (result_of results token
                         + real count / (real (totalCount node) + real (distinctCount node)) * w)"
      using fresh tc by (simp add: final_def den_def del: calculateProbabilitiesRecursive.simps)
  }
  {
    fix token
    assume t: "token \<in> set excluded"
    then have "token \<in> set (snd st')" using ex by simp
    then have "map_of (fst final) token = map_of (fst st') token" using keep(2) by blast
    then show "map_of (fst (calculateProbabilitiesRecursive cutoff rt vocab context
                              (results, excluded) w)) token
                 = map_of results token"
      using other[of token] t by (simp add: final_def del: calculateProbabilitiesRecursive.simps)
  }
  show "set excluded \<union> fst ` set (counts node)
          \<subseteq> set (snd (calculateProbabilitiesRecursive cutoff rt vocab context
                          (results, excluded) w))"
    using keep(1) ex unfolding final_def by simp
  {
    assume ne: "context \<noteq> []"
    have 1: "calculateProbabilitiesRecursive cutoff rt vocab context (results, excluded) w
             = calculateProbabilitiesRecursive cutoff rt vocab (tl context) (fst st', snd st')
                 (w * (real (distinctCount node) / den))"
      using calc_matched[OF nb ne conjunct1[OF a], of vocab "(results, excluded)"]
      by (simp add: st'_def den_def del: calculateProbabilitiesRecursive.simps)
    show "\<exists>results' excluded'.
            calculateProbabilitiesRecursive cutoff rt vocab context (results, excluded) w
              = calculateProbabilitiesRecursive cutoff rt vocab (tl context)
                  (results', excluded')
                  (w * (real (distinctCount node)
                        / (real (totalCount node) + real (distinctCount node))))
          \<and> set excluded' = set excluded \<union> fst ` set (counts node)
          \<and> (\<forall>token count. (token, count) \<in> set (counts node) \<and> token \<notin> set excluded \<longrightarrow>
                map_of results' token
                  = Some (result_of results token
                          + real count / (real (totalCount node) + real (distinctCount node))
                            * w))
          \<and> (\<forall>token. token \<in> set excluded \<or> token \<notin> fst ` set (counts node) \<longrightarrow>
                map_of results' token = map_of results token)"
      using 1 ex fresh other unfolding den_def by blast
  }
qed

section \<open>Exclusion Backoff: the mass that is given out\<close>

lemma update_fresh: "k \<notin> fst ` set al \<Longrightarrow> AList.update k v al = al @ [(k, v)]"
  by (induction al) auto

lemma node_step_linked: "linked st \<Longrightarrow> linked (node_step den w tc st)"
  by (cases tc; cases st) (auto simp: linked_def node_step_def Let_def set_add_def update_fresh)

lemma node_step_mass:
  "linked st \<Longrightarrow>
   mass (fst (node_step den w tc st))
     = mass (fst st) + (if fst tc \<in> set (snd st) then 0 else real (snd tc) / den * w)"
  by (cases tc; cases st)
     (auto simp: linked_def node_step_def Let_def update_fresh mass_def map_of_eq_None_iff[THEN iffD2])

lemma fold_node_step_linked: "linked st \<Longrightarrow> linked (fold (node_step den w) cs st)"
  by (induction cs arbitrary: st) (auto simp: node_step_linked)

lemma fold_node_step_mass:
  "linked st \<Longrightarrow> 0 \<le> w \<Longrightarrow> 0 \<le> den \<Longrightarrow>
   mass (fst (fold (node_step den w) cs st))
     \<le> mass (fst st) + real (sum_list (map snd cs)) / den * w"
proof (induction cs arbitrary: st)
  case Nil
  then show ?case by simp
next
  case (Cons tc cs)
  have "mass (fst (fold (node_step den w) cs (node_step den w tc st)))
        \<le> mass (fst (node_step den w tc st)) + real (sum_list (map snd cs)) / den * w"
    using Cons.prems by (intro Cons.IH node_step_linked)
  moreover have "mass (fst (node_step den w tc st)) \<le> mass (fst st) + real (snd tc) / den * w"
    using Cons.prems by (simp add: node_step_mass)
  ultimately show ?case by (simp add: add_divide_distrib distrib_right)
qed

lemma order_minus_one_fold_mass:
  "distinct vs \<Longrightarrow> fst ` set res \<inter> (set vs - set exc) = {} \<Longrightarrow>
   mass (fold (\<lambda>token res. if token \<in> set exc then res else AList.update token p res) vs res)
     = mass res + p * real (length (filter (\<lambda>t. t \<notin> set exc) vs))"
proof (induction vs arbitrary: res)
  case Nil
  then show ?case by simp
next
  case (Cons v vs)
  show ?case
  proof (cases "v \<in> set exc")
    case True
    then show ?thesis using Cons by auto
  next
    case False
    then have fresh: "v \<notin> fst ` set res" using Cons.prems(2) by auto
    have "fst ` set (res @ [(v, p)]) \<inter> (set vs - set exc) = {}"
      using Cons.prems by auto
    then have "mass (fold (\<lambda>token res. if token \<in> set exc then res else AList.update token p res)
                       vs (res @ [(v, p)]))
               = mass (res @ [(v, p)]) + p * real (length (filter (\<lambda>t. t \<notin> set exc) vs))"
      using Cons.prems(1) by (intro Cons.IH) auto
    then show ?thesis using False fresh by (simp add: update_fresh mass_def algebra_simps)
  qed
qed

lemma unpredicted_length:
  assumes "distinct vs" "distinct exc" "set exc \<subseteq> set vs"
  shows "length (filter (\<lambda>t. t \<notin> set exc) vs) = length vs - length exc"
proof -
  have "length (filter (\<lambda>t. t \<notin> set exc) vs) = card {x \<in> set vs. x \<notin> set exc}"
    using assms(1) by (simp add: distinct_length_filter Int_def conj_commute)
  also have "{x \<in> set vs. x \<notin> set exc} = set vs - set exc" by auto
  also have "card (set vs - set exc) = card (set vs) - card (set exc)"
    using assms(3) by (simp add: card_Diff_subset)
  finally show ?thesis using assms by (simp add: distinct_card)
qed

lemma handleOrderMinusOne_mass:
  assumes "linked (res, exc)" "distinct vocab" "set exc \<subseteq> set vocab" "0 \<le> w"
  shows "mass (handleOrderMinusOne vocab res exc w) \<le> mass res + w"
proof (cases "int (length vocab) - int (length exc) \<le> 0")
  case True
  then show ?thesis using assms(4) by (simp add: handleOrderMinusOne_def)
next
  case False
  then have lt: "length exc < length vocab" by simp
  have n: "length (filter (\<lambda>t. t \<notin> set exc) vocab) = length vocab - length exc"
    using assms by (intro unpredicted_length) (auto simp: linked_def)
  have disj: "fst ` set res \<inter> (set vocab - set exc) = {}"
    using assms(1) by (auto simp: linked_def)
  have "mass (handleOrderMinusOne vocab res exc w)
        = mass res + w / real_of_int (int (length vocab) - int (length exc))
                     * real (length vocab - length exc)"
    using False order_minus_one_fold_mass[OF assms(2) disj] n
    by (simp add: handleOrderMinusOne_def Let_def)
  also have "real_of_int (int (length vocab) - int (length exc)) = real (length vocab - length exc)"
    using lt by (simp add: of_nat_diff)
  also have "w / real (length vocab - length exc) * real (length vocab - length exc) = w"
    using lt by simp
  finally show ?thesis by simp
qed

lemma wf_node_sel:
  "wf_node V n \<longleftrightarrow>
     totalCount n = sum_list (map snd (counts n)) \<and> distinct (map fst (counts n))
     \<and> fst ` set (counts n) \<subseteq> V \<and> (\<forall>p \<in> set (children n). wf_node V (snd p))"
  by (cases n) simp

lemma wf_findNode: "wf_node V n \<Longrightarrow> findNode n ctx = Some n' \<Longrightarrow> wf_node V n'"
proof (induction ctx arbitrary: n)
  case Nil
  then show ?case by simp
next
  case (Cons w ctx)
  then obtain c where c: "map_of (children n) w = Some c" "findNode c ctx = Some n'"
    by (auto split: option.splits)
  then have "(w, c) \<in> set (children n)" by (simp add: map_of_SomeD)
  then have "wf_node V c" using Cons.prems(1) by (auto simp: wf_node_sel[of V n])
  then show ?case using c(2) by (rule Cons.IH)
qed

lemma calc_mass:
  "wf_node (set vocab) rt \<Longrightarrow> distinct vocab \<Longrightarrow> linked st \<Longrightarrow> set (snd st) \<subseteq> set vocab \<Longrightarrow>
   0 \<le> w \<Longrightarrow>
   mass (fst (calculateProbabilitiesRecursive cutoff rt vocab ctx st w)) \<le> mass (fst st) + w"
proof (induction cutoff rt vocab ctx st w rule: calculateProbabilitiesRecursive.induct)
  case (1 cutoff rt vocab ctx st w)
  show ?case
  proof (cases "below_cutoff cutoff w")
    case True
    then show ?thesis using "1.prems"(5) by (subst calculateProbabilitiesRecursive.simps) simp
  next
    case nb: False
    show ?thesis
    proof (cases "findNode rt ctx")
      case None
      then have ne: "ctx \<noteq> []" by auto
      have "mass (fst (calculateProbabilitiesRecursive cutoff rt vocab (tl ctx) st w))
            \<le> mass (fst st) + w"
        using nb ne None "1.prems" by (intro "1.IH"(1)) auto
      then show ?thesis using calc_unmatched[OF nb ne None] by simp
    next
      case (Some node)
      define t where "t = real (totalCount node)"
      define d where "d = real (distinctCount node)"
      define st' where "st' = fold (node_step (t + d) w) (counts node) st"
      have wfn: "wf_node (set vocab) node" using "1.prems"(1) Some by (rule wf_findNode)
      have tot: "t = real (sum_list (map snd (counts node)))"
        using wfn by (simp add: wf_node_sel[of _ node] t_def)
      have nn: "0 \<le> t" "0 \<le> d" by (simp_all add: t_def d_def)
      have l': "linked st'" using "1.prems"(3) by (simp add: st'_def fold_node_step_linked)
      have sub': "set (snd st') \<subseteq> set vocab"
        using "1.prems"(4) wfn by (auto simp: st'_def fold_node_step_excluded wf_node_sel[of _ node])
      have m': "mass (fst st') \<le> mass (fst st) + t / (t + d) * w"
        using fold_node_step_mass[OF "1.prems"(3) "1.prems"(5), of "t + d" "counts node"] nn
        by (simp add: st'_def tot)
      have w': "0 \<le> w * (d / (t + d))" using "1.prems"(5) nn by simp
      have split: "t / (t + d) * w + w * (d / (t + d)) \<le> w"
      proof (cases "t + d = 0")
        case True
        then show ?thesis using "1.prems"(5) by simp
      next
        case False
        have "t / (t + d) * w + w * (d / (t + d)) = w * (t / (t + d) + d / (t + d))"
          by (simp add: distrib_left)
        also have "t / (t + d) + d / (t + d) = 1"
          using False by (simp add: add_divide_distrib[symmetric])
        finally show ?thesis by simp
      qed
      show ?thesis
      proof (cases "ctx = []")
        case True
        have "calculateProbabilitiesRecursive cutoff rt vocab ctx st w
              = (handleOrderMinusOne vocab (fst st') (snd st') (w * (d / (t + d))), snd st')"
          using nb Some True
          by (subst calculateProbabilitiesRecursive.simps) (simp add: Let_def st'_def t_def d_def)
        moreover have "mass (handleOrderMinusOne vocab (fst st') (snd st') (w * (d / (t + d))))
                       \<le> mass (fst st') + w * (d / (t + d))"
          using l' "1.prems"(2) sub' w' by (intro handleOrderMinusOne_mass) auto
        ultimately show ?thesis using m' split by simp
      next
        case False
        have "mass (fst (calculateProbabilitiesRecursive cutoff rt vocab (tl ctx) st'
                           (w * (d / (t + d)))))
              \<le> mass (fst st') + w * (d / (t + d))"
          using nb False Some "1.prems"(1,2) l' sub' w'
          by (intro "1.IH"(2)[where x = "t" and xa = "d" and xb = "t + d" and xc = "d / (t + d)"])
             (auto simp: t_def d_def st'_def)
        moreover have "calculateProbabilitiesRecursive cutoff rt vocab ctx st w
              = calculateProbabilitiesRecursive cutoff rt vocab (tl ctx) st' (w * (d / (t + d)))"
          using calc_matched[OF nb False Some] by (simp add: st'_def t_def d_def)
        ultimately show ?thesis using m' split by simp
      qed
    qed
  qed
qed

subsection \<open>Training keeps the trie well formed\<close>

lemma set_update_subset: "set (AList.update k v al) \<subseteq> insert (k, v) (set al)"
  by (induction al) auto

lemma sum_update_incr:
  "distinct (map fst al) \<Longrightarrow>
   sum_list (map snd (AList.update k ((case map_of al k of None \<Rightarrow> 0 | Some c \<Rightarrow> c) + 1) al))
     = sum_list (map snd al) + (1::nat)"
  by (induction al) auto

lemma wf_new: "wf_node V new_ContextNode"
  by (simp add: new_ContextNode_def)

lemma wf_addToken:
  assumes "wf_node V n" "token \<in> V"
  shows "wf_node V (addToken token n)"
proof -
  define c where "c = (case map_of (counts n) token of None \<Rightarrow> 0 | Some c \<Rightarrow> c) + (1::nat)"
  have d: "distinct (map fst (counts n))" using assms(1) by (simp add: wf_node_sel[of V n])
  have "sum_list (map snd (AList.update token c (counts n))) = sum_list (map snd (counts n)) + 1"
    unfolding c_def using d by (rule sum_update_incr)
  moreover have "distinct (map fst (AList.update token c (counts n)))"
    using d by (rule distinct_update)
  moreover have "fst ` set (AList.update token c (counts n)) \<subseteq> V"
  proof -
    have "fst ` set (AList.update token c (counts n)) \<subseteq> insert token (fst ` set (counts n))"
      using set_update_subset[of token c "counts n"] by force
    then show ?thesis using assms by (auto simp: wf_node_sel[of V n])
  qed
  moreover have "addToken token n
                 = ContextNode (AList.update token c (counts n)) (children n) (totalCount n + 1)"
    by (simp add: addToken_def c_def)
  ultimately show ?thesis
    using assms(1) by (simp add: wf_node_sel[of V n])
qed

lemma wf_updateTrie: "wf_node V n \<Longrightarrow> token \<in> V \<Longrightarrow> wf_node V (updateTrie ctx token n)"
proof (induction ctx arbitrary: n)
  case Nil
  then show ?case by (simp add: wf_addToken)
next
  case (Cons w ctx)
  define child where
    "child = (case map_of (children n) w of None \<Rightarrow> new_ContextNode | Some c \<Rightarrow> c)"
  have "wf_node V child"
  proof (cases "map_of (children n) w")
    case None
    then show ?thesis by (simp add: child_def wf_new)
  next
    case (Some c)
    then have "(w, c) \<in> set (children n)" by (simp add: map_of_SomeD)
    then show ?thesis using Cons.prems(1) Some by (auto simp: child_def wf_node_sel[of V n])
  qed
  then have "wf_node V (updateTrie ctx token child)" using Cons.prems(2) by (rule Cons.IH)
  moreover have "\<forall>p \<in> set (children n). wf_node V (snd p)"
    using Cons.prems(1) by (simp add: wf_node_sel[of V n])
  ultimately have "\<forall>p \<in> set (AList.update w (updateTrie ctx token child) (children n)).
                     wf_node V (snd p)"
    using set_update_subset[of w "updateTrie ctx token child" "children n"] by auto
  then show ?case using Cons.prems(1) by (simp add: child_def[symmetric] wf_node_sel[of V n])
qed

lemma wf_mono: "wf_node V n \<Longrightarrow> V \<subseteq> V' \<Longrightarrow> wf_node V' n"
  by (induction V n rule: wf_node.induct) auto

lemma wf_train_orders:
  "wf_node V r \<Longrightarrow> i < length tokens \<Longrightarrow> set tokens \<subseteq> V \<Longrightarrow>
   wf_node V (train_orders tokens i orders r)"
proof (induction orders arbitrary: r)
  case Nil
  then show ?case by simp
next
  case (Cons order orders)
  have "tokens ! i \<in> V" using Cons.prems(2,3) by (auto dest: nth_mem)
  then have "wf_node V (updateTrie (js_slice tokens (int i - order) (int i)) (tokens ! i) r)"
    using Cons.prems(1) by (intro wf_updateTrie)
  then show ?case using Cons.IH Cons.prems by simp
qed

lemma fold_upt_invariant:
  "P r \<Longrightarrow> (\<And>i r. i < n \<Longrightarrow> P r \<Longrightarrow> P (f i r)) \<Longrightarrow> P (fold f [0 ..< n] r)"
  by (induction n arbitrary: r) auto

lemma set_fold_set_add: "set (fold set_add ts vs) = set vs \<union> set ts"
  by (induction ts arbitrary: vs) (auto simp: set_add_def)

lemma distinct_fold_set_add: "distinct vs \<Longrightarrow> distinct (fold set_add ts vs)"
  by (induction ts arbitrary: vs) (auto simp: set_add_def)

lemma model_ok_new: "model_ok (new_PPMModel order)"
  by (simp add: model_ok_def new_PPMModel_def wf_new)

lemma model_ok_train: "model_ok m \<Longrightarrow> model_ok (PPMModel_train tokens m)"
proof (cases "tokens = []")
  case True
  then show "model_ok m \<Longrightarrow> ?thesis" by (simp add: PPMModel_train_def)
next
  case False
  assume ok: "model_ok m"
  define V where "V = set (vocabulary m) \<union> set tokens"
  have "wf_node V (root m)" using ok by (auto simp: model_ok_def V_def intro: wf_mono)
  then have "wf_node V (fold (\<lambda>i r. train_orders tokens i [0 .. maxOrder m] r)
                          [0 ..< length tokens] (root m))"
    by (rule fold_upt_invariant) (simp add: wf_train_orders V_def)
  then show ?thesis
    using ok False
    by (simp add: model_ok_def PPMModel_train_def set_fold_set_add distinct_fold_set_add V_def)
qed

lemma model_ok_trained: "model_ok (fold PPMModel_train corpus (new_PPMModel order))"
proof -
  have "model_ok m \<Longrightarrow> model_ok (fold PPMModel_train corpus m)" for m
    by (induction corpus arbitrary: m) (auto simp: model_ok_train)
  then show ?thesis by (simp add: model_ok_new)
qed

subsection \<open>Scores are not negative\<close>

lemma nonneg_update: "nonneg al \<Longrightarrow> 0 \<le> v \<Longrightarrow> nonneg (AList.update k v al)"
  using set_update_subset[of k v al] by (auto simp: nonneg_def)

lemma nonneg_node_step:
  "nonneg (fst st) \<Longrightarrow> 0 \<le> den \<Longrightarrow> 0 \<le> w \<Longrightarrow> nonneg (fst (node_step den w tc st))"
proof (cases tc; cases st)
  fix token count results excluded
  assume a: "nonneg (fst st)" "0 \<le> den" "0 \<le> w" and e: "tc = (token, count)" "st = (results, excluded)"
  have "0 \<le> (case map_of results token of None \<Rightarrow> 0 | Some p \<Rightarrow> p)"
  proof (cases "map_of results token")
    case None
    then show ?thesis by simp
  next
    case (Some p)
    then have "(token, p) \<in> set results" by (rule map_of_SomeD)
    then show ?thesis using a(1) e Some by (auto simp: nonneg_def)
  qed
  then have "0 \<le> (case map_of results token of None \<Rightarrow> 0 | Some p \<Rightarrow> p) + real count / den * w"
    using a(2,3) by simp
  then show ?thesis using a(1) e by (simp add: node_step_def Let_def nonneg_update)
qed

lemma nonneg_fold_node_step:
  "nonneg (fst st) \<Longrightarrow> 0 \<le> den \<Longrightarrow> 0 \<le> w \<Longrightarrow> nonneg (fst (fold (node_step den w) cs st))"
  by (induction cs arbitrary: st) (auto simp: nonneg_node_step)

lemma nonneg_handleOrderMinusOne:
  assumes "nonneg res" "0 \<le> w"
  shows "nonneg (handleOrderMinusOne vocab res exc w)"
proof -
  have "nonneg r \<Longrightarrow> 0 \<le> p \<Longrightarrow>
        nonneg (fold (\<lambda>token res. if token \<in> set exc then res else AList.update token p res) vs r)"
    for p vs r
    by (induction vs arbitrary: r) (auto simp: nonneg_update)
  then show ?thesis using assms by (simp add: handleOrderMinusOne_def Let_def)
qed

lemma calc_nonneg:
  "nonneg (fst st) \<Longrightarrow> 0 \<le> w \<Longrightarrow>
   nonneg (fst (calculateProbabilitiesRecursive cutoff rt vocab ctx st w))"
proof (induction cutoff rt vocab ctx st w rule: calculateProbabilitiesRecursive.induct)
  case (1 cutoff rt vocab ctx st w)
  show ?case
  proof (cases "below_cutoff cutoff w")
    case True
    then show ?thesis using "1.prems" by (subst calculateProbabilitiesRecursive.simps) simp
  next
    case nb: False
    show ?thesis
    proof (cases "findNode rt ctx")
      case None
      then have ne: "ctx \<noteq> []" by auto
      have "nonneg (fst (calculateProbabilitiesRecursive cutoff rt vocab (tl ctx) st w))"
        using nb ne None "1.prems" by (intro "1.IH"(1)) auto
      then show ?thesis using calc_unmatched[OF nb ne None] by simp
    next
      case (Some node)
      define t where "t = real (totalCount node)"
      define d where "d = real (distinctCount node)"
      define st' where "st' = fold (node_step (t + d) w) (counts node) st"
      have nn: "0 \<le> t" "0 \<le> d" by (simp_all add: t_def d_def)
      have n': "nonneg (fst st')"
        using "1.prems" nn by (simp add: st'_def nonneg_fold_node_step)
      have w': "0 \<le> w * (d / (t + d))" using "1.prems"(2) nn by simp
      show ?thesis
      proof (cases "ctx = []")
        case True
        have "calculateProbabilitiesRecursive cutoff rt vocab ctx st w
              = (handleOrderMinusOne vocab (fst st') (snd st') (w * (d / (t + d))), snd st')"
          using nb Some True
          by (subst calculateProbabilitiesRecursive.simps) (simp add: Let_def st'_def t_def d_def)
        then show ?thesis using n' w' by (simp add: nonneg_handleOrderMinusOne)
      next
        case False
        have "nonneg (fst (calculateProbabilitiesRecursive cutoff rt vocab (tl ctx) st'
                           (w * (d / (t + d)))))"
          using nb False Some n' w'
          by (intro "1.IH"(2)[where x = "t" and xa = "d" and xb = "t + d" and xc = "d / (t + d)"])
             (auto simp: t_def d_def st'_def)
        moreover have "calculateProbabilitiesRecursive cutoff rt vocab ctx st w
              = calculateProbabilitiesRecursive cutoff rt vocab (tl ctx) st' (w * (d / (t + d)))"
          using calc_matched[OF nb False Some] by (simp add: st'_def t_def d_def)
        ultimately show ?thesis by simp
      qed
    qed
  qed
qed

lemma sum_list_insort_key:
  "sum_list (map g (insort_key f x xs)) = g x + sum_list (map g xs)"
  for g :: "'a \<Rightarrow> real" and f :: "'a \<Rightarrow> real"
  by (induction xs) auto

lemma sum_list_sort_key:
  "sum_list (map g (sort_key f xs)) = sum_list (map g xs)"
  for g :: "'a \<Rightarrow> real" and f :: "'a \<Rightarrow> real"
  by (induction xs) (auto simp: sum_list_insort_key)

subsection \<open>Every node of a trained trie has observations\<close>

lemma observed_below_sel:
  "observed_below n \<longleftrightarrow> (\<forall>p \<in> set (children n). counts (snd p) \<noteq> [] \<and> observed_below (snd p))"
  by (cases n) simp

lemma update_nonempty: "AList.update k v al \<noteq> []"
  by (cases al) auto

lemma addToken_sel:
  "counts (addToken token n) \<noteq> []" "children (addToken token n) = children n"
  by (simp_all add: addToken_def Let_def update_nonempty)

lemma updateTrie_counts: "ctx \<noteq> [] \<Longrightarrow> counts (updateTrie ctx token n) = counts n"
  by (cases ctx) (simp_all add: Let_def)

lemma observed_below_updateTrie:
  "observed_below n \<Longrightarrow> ctx = [] \<or> findNode n (butlast ctx) \<noteq> None \<Longrightarrow>
   observed_below (updateTrie ctx token n)"
proof (induction ctx arbitrary: n)
  case Nil
  then show ?case by (simp add: observed_below_sel[of "addToken token n"] addToken_sel observed_below_sel[of n])
next
  case (Cons w ctx)
  define child where
    "child = (case map_of (children n) w of None \<Rightarrow> new_ContextNode | Some c \<Rightarrow> c)"
  define child' where "child' = updateTrie ctx token child"
  have old: "\<forall>p \<in> set (children n). counts (snd p) \<noteq> [] \<and> observed_below (snd p)"
    using Cons.prems(1) by (simp add: observed_below_sel[of n])
  have new: "counts child' \<noteq> [] \<and> observed_below child'"
  proof (cases "ctx = []")
    case True
    have "observed_below child"
    proof (cases "map_of (children n) w")
      case None
      then show ?thesis by (simp add: child_def new_ContextNode_def)
    next
      case (Some c)
      then have "(w, c) \<in> set (children n)" by (rule map_of_SomeD)
      then show ?thesis using old Some by (auto simp: child_def)
    qed
    then show ?thesis
      using True
      by (simp add: child'_def addToken_sel observed_below_sel[of "addToken token child"]
          observed_below_sel[of child])
  next
    case False
    then have "findNode n (w # butlast ctx) \<noteq> None" using Cons.prems(2) by simp
    then obtain c where c: "map_of (children n) w = Some c" "findNode c (butlast ctx) \<noteq> None"
      by (auto split: option.splits)
    then have "(w, c) \<in> set (children n)" by (simp add: map_of_SomeD)
    then have "counts c \<noteq> []" "observed_below c" using old by auto
    moreover have "child = c" using c(1) by (simp add: child_def)
    ultimately show ?thesis
      using False c(2) Cons.IH[of c] by (simp add: child'_def updateTrie_counts)
  qed
  have "\<forall>p \<in> set (AList.update w child' (children n)). counts (snd p) \<noteq> [] \<and> observed_below (snd p)"
    using old new set_update_subset[of w child' "children n"] by auto
  then show ?case
    by (simp add: child_def[symmetric] child'_def[symmetric]
        observed_below_sel[of "ContextNode (counts n) (AList.update w child' (children n)) (totalCount n)"])
qed

lemma findNode_updateTrie_mono:
  "findNode n c \<noteq> None \<Longrightarrow> findNode (updateTrie ctx token n) c \<noteq> None"
proof (induction c arbitrary: n ctx)
  case Nil
  then show ?case by simp
next
  case (Cons w c)
  then obtain x where x: "map_of (children n) w = Some x" "findNode x c \<noteq> None"
    by (auto split: option.splits)
  show ?case
  proof (cases ctx)
    case Nil
    then show ?thesis using x by (simp add: addToken_sel)
  next
    case (Cons v ctx')
    show ?thesis
    proof (cases "v = w")
      case True
      then show ?thesis using x Cons Cons.IH[OF x(2)] by (simp add: update_conv' Let_def)
    next
      case False
      then show ?thesis using x Cons by (simp add: update_conv' Let_def)
    qed
  qed
qed

lemma findNode_updateTrie_self: "findNode (updateTrie ctx token n) ctx \<noteq> None"
  by (induction ctx arbitrary: n) (simp_all add: update_conv' Let_def)

lemma slice_inside:
  "0 \<le> a \<Longrightarrow> a \<le> b \<Longrightarrow> b \<le> int (length xs) \<Longrightarrow>
   js_slice xs a b = take (nat (b - a)) (drop (nat a) xs)"
  by (simp add: js_slice_def min_def)

lemma slice_context_butlast:
  assumes "i < length tokens" "1 \<le> o'" "o' \<le> int i"
  shows "butlast (js_slice tokens (int i - o') (int i)) = js_slice tokens (int i - o') (int i - 1)"
proof -
  have "nat o' \<le> length (drop (nat (int i - o')) tokens)" using assms by auto
  then have "butlast (take (nat o') (drop (nat (int i - o')) tokens))
             = take (nat o' - 1) (drop (nat (int i - o')) tokens)"
    by (rule butlast_take)
  moreover have "nat (int i - 1 - (int i - o')) = nat o' - 1" using assms by auto
  ultimately show ?thesis using assms by (simp add: slice_inside)
qed

lemma slice_context_empty: "i < length tokens \<Longrightarrow> js_slice tokens (int i - 0) (int i) = []"
  by (simp add: js_slice_def)

lemma findNode_observed:
  "observed_below n \<Longrightarrow> findNode n ctx = Some node \<Longrightarrow> ctx \<noteq> [] \<Longrightarrow> counts node \<noteq> []"
proof (induction ctx arbitrary: n)
  case Nil
  then show ?case by simp
next
  case (Cons w ctx)
  then obtain c where c: "map_of (children n) w = Some c" "findNode c ctx = Some node"
    by (auto split: option.splits)
  then have "(w, c) \<in> set (children n)" by (simp add: map_of_SomeD)
  then have oc: "counts c \<noteq> []" "observed_below c"
    using Cons.prems(1) by (auto simp: observed_below_sel[of n])
  show ?case
  proof (cases "ctx = []")
    case True
    then show ?thesis using c(2) oc(1) by simp
  next
    case False
    then show ?thesis using Cons.IH[OF oc(2) c(2)] by simp
  qed
qed

lemma updateTrie_counts_nonempty: "counts n \<noteq> [] \<Longrightarrow> counts (updateTrie ctx token n) \<noteq> []"
  by (cases ctx) (simp_all add: addToken_sel Let_def)

lemma train_orders_observed:
  assumes "i < length tokens"
  shows "sorted os \<Longrightarrow> \<forall>o' \<in> set os. 0 \<le> o' \<Longrightarrow> observed_below r \<Longrightarrow>
         \<forall>o' \<in> set os. 1 \<le> o' \<and> o' \<le> int i \<longrightarrow>
            findNode r (js_slice tokens (int i - o') (int i - 1)) \<noteq> None \<Longrightarrow>
         observed_below (train_orders tokens i os r)
         \<and> (\<forall>c. findNode r c \<noteq> None \<longrightarrow> findNode (train_orders tokens i os r) c \<noteq> None)
         \<and> (counts r \<noteq> [] \<longrightarrow> counts (train_orders tokens i os r) \<noteq> [])
         \<and> (\<forall>o' \<in> set os. o' \<le> int i \<longrightarrow>
               findNode (train_orders tokens i os r) (js_slice tokens (int i - o') (int i)) \<noteq> None)
         \<and> (0 \<in> set os \<longrightarrow> counts (train_orders tokens i os r) \<noteq> [])"
proof (induction os arbitrary: r)
  case Nil
  then show ?case by simp
next
  case (Cons a os)
  show ?case
  proof (cases "int i - a < 0")
    case True
    then have "\<forall>o' \<in> set (a # os). \<not> o' \<le> int i" using Cons.prems(1) by auto
    moreover have "0 \<notin> set (a # os)" using True Cons.prems(1) by auto
    ultimately show ?thesis using True Cons.prems(3) by simp
  next
    case False
    define ctx where "ctx = js_slice tokens (int i - a) (int i)"
    define r1 where "r1 = updateTrie ctx (tokens ! i) r"
    have a0: "0 \<le> a" using Cons.prems(2) by simp
    have "ctx = [] \<or> findNode r (butlast ctx) \<noteq> None"
    proof (cases "a = 0")
      case True
      then show ?thesis using slice_context_empty[OF assms] by (simp add: ctx_def)
    next
      case nz: False
      then have "1 \<le> a \<and> a \<le> int i" using a0 False by auto
      then show ?thesis
        using Cons.prems(4) slice_context_butlast[OF assms, of a] by (simp add: ctx_def)
    qed
    then have ob1: "observed_below r1"
      using Cons.prems(3) unfolding r1_def by (intro observed_below_updateTrie)
    have mono1: "findNode r c \<noteq> None \<Longrightarrow> findNode r1 c \<noteq> None" for c
      unfolding r1_def by (rule findNode_updateTrie_mono)
    have self1: "findNode r1 ctx \<noteq> None" unfolding r1_def by (rule findNode_updateTrie_self)
    have cnt1: "counts r \<noteq> [] \<Longrightarrow> counts r1 \<noteq> []"
      unfolding r1_def by (rule updateTrie_counts_nonempty)
    have zero1: "a = 0 \<Longrightarrow> counts r1 \<noteq> []"
      using slice_context_empty[OF assms] by (simp add: r1_def ctx_def addToken_sel)
    have IH: "observed_below (train_orders tokens i os r1)
         \<and> (\<forall>c. findNode r1 c \<noteq> None \<longrightarrow> findNode (train_orders tokens i os r1) c \<noteq> None)
         \<and> (counts r1 \<noteq> [] \<longrightarrow> counts (train_orders tokens i os r1) \<noteq> [])
         \<and> (\<forall>o' \<in> set os. o' \<le> int i \<longrightarrow>
               findNode (train_orders tokens i os r1) (js_slice tokens (int i - o') (int i)) \<noteq> None)
         \<and> (0 \<in> set os \<longrightarrow> counts (train_orders tokens i os r1) \<noteq> [])"
      using Cons.prems ob1 mono1 by (intro Cons.IH) auto
    have step: "train_orders tokens i (a # os) r = train_orders tokens i os r1"
      using False by (simp add: r1_def ctx_def)
    show ?thesis
      unfolding step using IH mono1 self1 cnt1 zero1 by (auto simp: ctx_def)
  qed
qed

lemma fold_upt_indexed:
  "P 0 r \<Longrightarrow> (\<And>i r. i < n \<Longrightarrow> P i r \<Longrightarrow> P (Suc i) (f i r)) \<Longrightarrow> P n (fold f [0 ..< n] r)"
  by (induction n arbitrary: r) auto

lemma train_root_observed:
  assumes "observed_below r"
  shows "observed_below (fold (\<lambda>i r. train_orders tokens i [0 .. mo] r) [0 ..< length tokens] r)
         \<and> (counts r \<noteq> [] \<or> (tokens \<noteq> [] \<and> 0 \<le> mo) \<longrightarrow>
              counts (fold (\<lambda>i r. train_orders tokens i [0 .. mo] r) [0 ..< length tokens] r) \<noteq> [])"
proof -
  define P where "P = (\<lambda>i r'.
     observed_below r'
     \<and> (\<forall>o'. 0 \<le> o' \<and> o' \<le> mo \<and> o' < int i \<longrightarrow>
           findNode r' (js_slice tokens (int i - 1 - o') (int i - 1)) \<noteq> None)
     \<and> (counts r \<noteq> [] \<or> (0 < i \<and> 0 \<le> mo) \<longrightarrow> counts r' \<noteq> []))"
  have "P (length tokens)
          (fold (\<lambda>i r. train_orders tokens i [0 .. mo] r) [0 ..< length tokens] r)"
  proof (rule fold_upt_indexed)
    show "P 0 r" using assms by (auto simp: P_def)
  next
    fix i r'
    assume i: "i < length tokens" and p: "P i r'"
    have pre: "\<forall>o' \<in> set [0 .. mo]. 1 \<le> o' \<and> o' \<le> int i \<longrightarrow>
                 findNode r' (js_slice tokens (int i - o') (int i - 1)) \<noteq> None"
    proof (intro ballI impI)
      fix o' assume o: "o' \<in> set [0 .. mo]" "1 \<le> o' \<and> o' \<le> int i"
      then have "0 \<le> o' - 1 \<and> o' - 1 \<le> mo \<and> o' - 1 < int i" by auto
      then have "findNode r' (js_slice tokens (int i - 1 - (o' - 1)) (int i - 1)) \<noteq> None"
        using p unfolding P_def by blast
      then show "findNode r' (js_slice tokens (int i - o') (int i - 1)) \<noteq> None" by simp
    qed
    note t = train_orders_observed[OF i, of "[0 .. mo]" r', OF _ _ _ pre]
    have t': "observed_below (train_orders tokens i [0 .. mo] r')
         \<and> (\<forall>c. findNode r' c \<noteq> None \<longrightarrow> findNode (train_orders tokens i [0 .. mo] r') c \<noteq> None)
         \<and> (counts r' \<noteq> [] \<longrightarrow> counts (train_orders tokens i [0 .. mo] r') \<noteq> [])
         \<and> (\<forall>o' \<in> set [0 .. mo]. o' \<le> int i \<longrightarrow>
               findNode (train_orders tokens i [0 .. mo] r') (js_slice tokens (int i - o') (int i)) \<noteq> None)
         \<and> (0 \<in> set [0 .. mo] \<longrightarrow> counts (train_orders tokens i [0 .. mo] r') \<noteq> [])"
      using p by (intro t) (auto simp: P_def)
    show "P (Suc i) (train_orders tokens i [0 .. mo] r')"
      unfolding P_def
    proof (intro conjI allI impI)
      show "observed_below (train_orders tokens i [0 .. mo] r')" using t' by simp
    next
      fix o' assume "0 \<le> o' \<and> o' \<le> mo \<and> o' < int (Suc i)"
      then have "o' \<in> set [0 .. mo]" "o' \<le> int i" by auto
      then have "findNode (train_orders tokens i [0 .. mo] r') (js_slice tokens (int i - o') (int i)) \<noteq> None"
        using t' by blast
      then show "findNode (train_orders tokens i [0 .. mo] r')
                   (js_slice tokens (int (Suc i) - 1 - o') (int (Suc i) - 1)) \<noteq> None"
        by simp
    next
      assume "counts r \<noteq> [] \<or> 0 < Suc i \<and> 0 \<le> mo"
      then show "counts (train_orders tokens i [0 .. mo] r') \<noteq> []"
        using t' p unfolding P_def by auto
    qed
  qed
  then show ?thesis unfolding P_def by auto
qed

lemma observed_new: "observed (new_PPMModel order)"
  by (simp add: observed_def new_PPMModel_def new_ContextNode_def)

lemma observed_train:
  assumes "observed m" "0 \<le> maxOrder m"
  shows "observed (PPMModel_train tokens m)"
proof (cases "tokens = []")
  case True
  then show ?thesis using assms by (simp add: PPMModel_train_def)
next
  case False
  then show ?thesis
    using assms train_root_observed[of "root m" tokens "maxOrder m"]
    by (simp add: observed_def PPMModel_train_def)
qed

lemma maxOrder_train: "maxOrder (PPMModel_train tokens m) = maxOrder m"
  by (simp add: PPMModel_train_def)

lemma observed_trained:
  assumes "0 \<le> order"
  shows "observed (fold PPMModel_train corpus (new_PPMModel order))
         \<and> maxOrder (fold PPMModel_train corpus (new_PPMModel order)) = order"
proof -
  have "observed m \<and> maxOrder m = order \<Longrightarrow>
        observed (fold PPMModel_train corpus m) \<and> maxOrder (fold PPMModel_train corpus m) = order"
    for m
    using assms by (induction corpus arbitrary: m) (auto simp: observed_train maxOrder_train)
  moreover have "maxOrder (new_PPMModel order) = order" by (simp add: new_PPMModel_def)
  ultimately show ?thesis using observed_new[of order] by blast
qed

lemma trained_node_observed:
  assumes "0 \<le> order" "vocabulary (fold PPMModel_train corpus (new_PPMModel order)) \<noteq> []"
    "findNode (root (fold PPMModel_train corpus (new_PPMModel order))) ctx = Some node"
  shows "0 < distinctCount node"
proof -
  define m where "m = fold PPMModel_train corpus (new_PPMModel order)"
  have ob: "observed m" unfolding m_def using observed_trained[OF assms(1)] by simp
  have "counts node \<noteq> []"
  proof (cases "ctx = []")
    case True
    then show ?thesis using ob assms(2,3) by (simp add: observed_def m_def)
  next
    case False
    then show ?thesis using ob assms(3) findNode_observed by (auto simp: observed_def m_def)
  qed
  then show ?thesis by (simp add: distinctCount_def)
qed

text \<open>
  Claim C1, as amended. For every model of order \<open>\<ge> 0\<close> reached from a new one by any
  sequence of \<^verbatim>\<open>train\<close> calls that has put a token into the vocabulary, and for every
  history, with the cutoff check taken out and exact arithmetic: every score returned by
  \<^verbatim>\<open>predict\<close> is at least 0, the scores sum to at most 1, and every node of the trie has
  a positive denominator \<^verbatim>\<open>total + distinct\<close>, so that no quotient of the recursion is
  undefined. The sum need not reach 1: a token that is already excluded still counts in
  the denominator of a shorter context, and the escape weight of the root context finds
  no token left at order \<open>-1\<close>.
\<close>

theorem exclusion_scores_subdistribution:
  assumes "0 \<le> order"
    and "vocabulary (fold PPMModel_train corpus (new_PPMModel order)) \<noteq> []"
  shows "(\<forall>tp \<in> set (PPMModel_predict_with None (fold PPMModel_train corpus (new_PPMModel order))
                       history). 0 \<le> snd tp)
   \<and> sum_list (map snd (PPMModel_predict_with None (fold PPMModel_train corpus (new_PPMModel order))
                          history)) \<le> 1
   \<and> (\<forall>ctx node. findNode (root (fold PPMModel_train corpus (new_PPMModel order))) ctx = Some node
         \<longrightarrow> 0 < totalCount node + distinctCount node)"
proof -
  define m where "m = fold PPMModel_train corpus (new_PPMModel order)"
  define r where "r = fst (calculateProbabilitiesRecursive None (root m) (vocabulary m)
                             (js_slice_from history (- maxOrder m)) ([], []) 1)"
  have ok: "model_ok m" by (simp add: m_def model_ok_trained)
  have "mass r \<le> mass (fst (([], []) :: (string \<times> real) list \<times> string list)) + 1"
    unfolding r_def using ok by (intro calc_mass) (auto simp: model_ok_def linked_def)
  then have 1: "sum_list (map snd r) \<le> 1" by (simp add: mass_def)
  have "nonneg r" unfolding r_def by (intro calc_nonneg) (auto simp: nonneg_def)
  then have 2: "\<forall>tp \<in> set r. 0 \<le> snd tp" by (simp add: nonneg_def)
  have p: "PPMModel_predict_with None m history = sort_key (\<lambda>tp. - snd tp) r"
    by (simp add: PPMModel_predict_with_def r_def Let_def)
  have 3: "\<forall>ctx node. findNode (root m) ctx = Some node \<longrightarrow> 0 < totalCount node + distinctCount node"
    using trained_node_observed[OF assms] unfolding m_def by fastforce
  show ?thesis using 1 2 3 unfolding m_def[symmetric] p by (simp add: sum_list_sort_key)
qed

text \<open>
  Claim C6 as stated fails below the cutoff. At the node of the context \<open>a\<close> of
  \<open>example_root\<close> (\<open>total = 3\<close>, \<open>distinct = 2\<close>) with weight \<open>10^-10\<close> the token
  \<open>b\<close>, observed twice and not excluded, does not get \<open>2 / 5 * 10^-10\<close>. The state is
  reached from \<^verbatim>\<open>predict\<close>: on \<open>cutoff_model\<close> with the history \<open>a\<close> the root is entered
  with weight \<open>2 / (10^10 + 2)\<close> and its token \<open>c\<close>, not excluded, gets no score, while
  it gets one when the cutoff is taken out.
\<close>

theorem exclusion_step_cutoff_counterexample:
  "findNode example_root [''a''] = Some (ContextNode [(''b'', 2), (''c'', 1)] [] 3)
   \<and> map_of (fst (calculateProbabilitiesRecursive (Some CUTOFF) example_root [''a'', ''b'', ''c'']
                    [''a''] ([], []) (1 / 10 ^ 10))) ''b''
       \<noteq> Some (result_of [] ''b'' + real 2 / (real 3 + real 2) * (1 / 10 ^ 10))
   \<and> map_of (PPMModel_predict cutoff_model [''a'']) ''c'' = None
   \<and> map_of (PPMModel_predict_with None cutoff_model [''a'']) ''c''
       = Some (1 / (10 ^ 10 + 5) * (2 / (10 ^ 10 + 2)))"
  by (simp add: example_root_def cutoff_model_def below_cutoff_def CUTOFF_def
      PPMModel_predict_def PPMModel_predict_with_def js_slice_from_def js_slice_def
      distinctCount_def node_step_def set_add_def handleOrderMinusOne_def result_of_def)

text \<open>
  Claim C6, as amended, at a node with \<open>total = 3\<close> and \<open>distinct = 2\<close> (the context
  \<open>a\<close>, followed twice by \<open>b\<close> and once by \<open>c\<close>): in the returned map \<open>b\<close> has
  \<open>2 / 5\<close> and \<open>c\<close> has \<open>1 / 5\<close>, the escape weight is \<open>2 / 5\<close>; the context \<open>c\<close> has
  no node and forwards the whole weight; with weight \<open>10^-10\<close> the state comes back
  unchanged.
\<close>

theorem exclusion_step_witness:
  "map_of (fst (calculateProbabilitiesRecursive (Some CUTOFF) example_root [''a'', ''b'', ''c'']
                  [''a''] ([], []) 1)) ''b'' = Some (2 / 5)
   \<and> map_of (fst (calculateProbabilitiesRecursive (Some CUTOFF) example_root [''a'', ''b'', ''c'']
                  [''a''] ([], []) 1)) ''c'' = Some (1 / 5)
   \<and> ''b'' \<in> set (snd (calculateProbabilitiesRecursive (Some CUTOFF) example_root
                          [''a'', ''b'', ''c''] [''a''] ([], []) 1))
   \<and> (\<exists>results' excluded'.
        calculateProbabilitiesRecursive (Some CUTOFF) example_root [''a'', ''b'', ''c''] [''a'']
            ([], []) 1
          = calculateProbabilitiesRecursive (Some CUTOFF) example_root [''a'', ''b'', ''c''] []
              (results', excluded') (2 / 5)
        \<and> set excluded' = {''b'', ''c''}
        \<and> map_of results' ''b'' = Some (2 / 5)
        \<and> map_of results' ''c'' = Some (1 / 5)
        \<and> map_of results' ''a'' = None)
   \<and> calculateProbabilitiesRecursive (Some CUTOFF) example_root [''a'', ''b'', ''c''] [''c'']
          ([], []) 1
        = calculateProbabilitiesRecursive (Some CUTOFF) example_root [''a'', ''b'', ''c''] []
            ([], []) 1
   \<and> calculateProbabilitiesRecursive (Some CUTOFF) example_root [''a'', ''b'', ''c''] [''a'']
          ([(''b'', 1 / 2)], [''b'']) (1 / 10 ^ 10)
        = ([(''b'', 1 / 2)], [''b''])
   \<and> fst (calculateProbabilitiesRecursive (Some CUTOFF) example_root [''a'', ''b'', ''c''] [''a'']
            ([], []) 1)
        = [(''b'', 2 / 5), (''c'', 1 / 5), (''a'', 2 / 15)]"
proof -
  have nb: "\<not> below_cutoff (Some CUTOFF) 1" by (simp add: below_cutoff_def CUTOFF_def)
  have bl: "below_cutoff (Some CUTOFF) (1 / 10 ^ 10)" by (simp add: below_cutoff_def CUTOFF_def)
  define node where "node = ContextNode [(''b'', 2), (''c'', 1)] [] 3"
  define final where
    "final = calculateProbabilitiesRecursive (Some CUTOFF) example_root [''a'', ''b'', ''c'']
               [''a''] ([], []) 1"
  have f: "findNode example_root [''a''] = Some node
           \<and> distinct (map fst (counts node)) \<and> 0 < distinctCount node"
    by (simp add: example_root_def node_def distinctCount_def)
  have g: "[''c''] \<noteq> [] \<and> findNode example_root [''c''] = None" by (simp add: example_root_def)
  note s = exclusion_step[of "Some CUTOFF" 1 example_root "[''a'', ''b'', ''c'']" "[''a'']" "[]" "[]",
             THEN conjunct2, rule_format, OF nb, THEN conjunct2, rule_format, OF f,
             folded final_def]
  note u = exclusion_step[of "Some CUTOFF" 1 example_root "[''a'', ''b'', ''c'']" "[''c'']" "[]" "[]",
             THEN conjunct2, rule_format, OF nb, THEN conjunct1, rule_format, OF g]
  note c = exclusion_step[of "Some CUTOFF" "1 / 10 ^ 10" example_root "[''a'', ''b'', ''c'']"
             "[''a'']" "[(''b'', 1 / 2)]" "[''b'']", THEN conjunct1, rule_format, OF bl]
  have 1: "map_of (fst final) ''b'' = Some (2 / 5)"
    using s[THEN conjunct1, rule_format, of "''b''" 2]
    by (simp add: node_def distinctCount_def result_of_def del: calculateProbabilitiesRecursive.simps)
  have 2: "map_of (fst final) ''c'' = Some (1 / 5)"
    using s[THEN conjunct1, rule_format, of "''c''" 1]
    by (simp add: node_def distinctCount_def result_of_def del: calculateProbabilitiesRecursive.simps)
  have 3: "''b'' \<in> set (snd final)"
    using s[THEN conjunct2, THEN conjunct2, THEN conjunct1] by (auto simp: node_def)
  obtain results' excluded' where
    r: "final = calculateProbabilitiesRecursive (Some CUTOFF) example_root [''a'', ''b'', ''c'']
            (tl [''a'']) (results', excluded')
            (1 * (real (distinctCount node) / (real (totalCount node) + real (distinctCount node))))"
       "set excluded' = set [] \<union> fst ` set (counts node)"
       "\<forall>token count. (token, count) \<in> set (counts node) \<and> token \<notin> set [] \<longrightarrow>
           map_of results' token
             = Some (result_of [] token
                     + real count / (real (totalCount node) + real (distinctCount node)) * 1)"
       "\<forall>token. token \<in> set [] \<or> token \<notin> fst ` set (counts node) \<longrightarrow>
           map_of results' token = map_of [] token"
    using s[THEN conjunct2, THEN conjunct2, THEN conjunct2, rule_format] by blast
  have 4: "final = calculateProbabilitiesRecursive (Some CUTOFF) example_root [''a'', ''b'', ''c'']
             [] (results', excluded') (2 / 5)
           \<and> set excluded' = {''b'', ''c''}
           \<and> map_of results' ''b'' = Some (2 / 5)
           \<and> map_of results' ''c'' = Some (1 / 5)
           \<and> map_of results' ''a'' = None"
    using r(1) r(2) r(3)[rule_format, of "''b''" 2] r(3)[rule_format, of "''c''" 1]
          r(4)[rule_format, of "''a''"]
    by (simp add: node_def distinctCount_def result_of_def del: calculateProbabilitiesRecursive.simps)
  have 5: "fst final = [(''b'', 2 / 5), (''c'', 1 / 5), (''a'', 2 / 15)]"
    by (simp add: final_def example_root_def below_cutoff_def CUTOFF_def distinctCount_def
        node_step_def set_add_def handleOrderMinusOne_def)
  have 6: "calculateProbabilitiesRecursive (Some CUTOFF) example_root [''a'', ''b'', ''c''] [''c'']
             ([], []) 1
           = calculateProbabilitiesRecursive (Some CUTOFF) example_root [''a'', ''b'', ''c''] []
               ([], []) 1"
    using u by (simp del: calculateProbabilitiesRecursive.simps)
  show ?thesis
    using 1 2 3 4 5 6 c unfolding final_def by blast
qed

text \<open>
  Claim C1 as stated fails: after training on the single token \<open>a\<close> the score of \<open>a\<close>
  for the empty context is \<open>1 / 2\<close>; the other half of the weight escapes from the root
  and finds no token that is not excluded. The sum of the scores is \<open>1 / 2\<close>.
\<close>

theorem exclusion_scores_sum_counterexample:
  "\<bar>sum_list (map snd (PPMModel_predict_with None (PPMModel_train [''a''] (new_PPMModel 2)) [])) - 1\<bar>
     > 1 / 3"
  by (simp add: PPMModel_train_def new_PPMModel_def new_ContextNode_def set_add_def js_slice_def
      addToken_def upto.simps PPMModel_predict_with_def js_slice_from_def below_cutoff_def
      distinctCount_def node_step_def handleOrderMinusOne_def)

text \<open>
  Claim C1, as amended, after training on \<open>a b a c\<close>: the scores for the context \<open>a\<close>
  are \<open>1 / 4\<close>, \<open>1 / 4\<close> and \<open>1 / 7\<close>.
\<close>

theorem exclusion_scores_subdistribution_witness:
  "PPMModel_predict_with None (fold PPMModel_train [[''a'', ''b'', ''a'', ''c'']] (new_PPMModel 2)) [''a'']
     = [(''b'', 1 / 4), (''c'', 1 / 4), (''a'', 1 / 7)]
   \<and> 0 \<le> snd (hd (PPMModel_predict_with None
                      (fold PPMModel_train [[''a'', ''b'', ''a'', ''c'']] (new_PPMModel 2)) [''a'']))
   \<and> sum_list (map snd (PPMModel_predict_with None
                           (fold PPMModel_train [[''a'', ''b'', ''a'', ''c'']] (new_PPMModel 2)) [''a'']))
       \<le> 1
   \<and> 0 < totalCount (root (fold PPMModel_train [[''a'', ''b'', ''a'', ''c'']] (new_PPMModel 2)))
         + distinctCount (root (fold PPMModel_train [[''a'', ''b'', ''a'', ''c'']] (new_PPMModel 2)))"
proof -
  define m where "m = fold PPMModel_train [[''a'', ''b'', ''a'', ''c'']] (new_PPMModel 2)"
  define scores where "scores = PPMModel_predict_with None m [''a'']"
  have e: "scores = [(''b'', 1 / 4), (''c'', 1 / 4), (''a'', 1 / 7)]"
    unfolding scores_def m_def
    by (simp add: PPMModel_train_def new_PPMModel_def new_ContextNode_def set_add_def js_slice_def
        addToken_def upto.simps PPMModel_predict_with_def js_slice_from_def below_cutoff_def
        distinctCount_def node_step_def handleOrderMinusOne_def)
  have v: "vocabulary m \<noteq> []"
    unfolding m_def by (simp add: PPMModel_train_def new_PPMModel_def set_add_def)
  have b: "(\<forall>tp \<in> set scores. 0 \<le> snd tp) \<and> sum_list (map snd scores) \<le> 1
           \<and> (\<forall>ctx node. findNode (root m) ctx = Some node
                 \<longrightarrow> 0 < totalCount node + distinctCount node)"
    unfolding scores_def using v unfolding m_def
    by (intro exclusion_scores_subdistribution) simp_all
  have "hd scores \<in> set scores" by (simp add: e)
  then have 1: "0 \<le> snd (hd scores)" using b by blast
  have 2: "0 < totalCount (root m) + distinctCount (root m)"
    using b[THEN conjunct2, THEN conjunct2, rule_format, of "[]" "root m"] by simp
  show ?thesis using e b 1 2 unfolding scores_def m_def by blast
qed

text \<open>
  Claim C3 as stated fails: after one training on \<open>the cat sat\<close> with order 2, the first
  suggestion for the context \<open>the\<close> does not have the score 1.
\<close>

theorem the_cat_sat_counterexample:
  "snd (hd (PPMModel_predict (PPMModel_train [''the'', ''cat'', ''sat''] (new_PPMModel 2)) [''the''])) \<noteq> 1"
  by (simp add: PPMModel_train_def new_PPMModel_def new_ContextNode_def set_add_def js_slice_def addToken_def upto.simps
      PPMModel_predict_def PPMModel_predict_with_def js_slice_from_def below_cutoff_def CUTOFF_def
    distinctCount_def node_step_def handleOrderMinusOne_def)

text \<open>
  Claim C3, as amended. After one training on \<open>the cat sat\<close> with order 2, the first
  suggestion for the context \<open>the\<close> is \<open>cat\<close> with score \<open>1 / 2\<close>: the node of \<open>the\<close>
  has one observation and one distinct continuation, so half of the weight escapes. The
  same holds with order 1, where the longest context is one token.
\<close>

theorem the_cat_sat_top1:
  "hd (PPMModel_predict (PPMModel_train [''the'', ''cat'', ''sat''] (new_PPMModel 2)) [''the''])
     = (''cat'', 1 / 2)
   \<and> hd (PPMModel_predict (PPMModel_train [''the'', ''cat'', ''sat''] (new_PPMModel 1)) [''the''])
     = (''cat'', 1 / 2)"
  by (simp add: PPMModel_train_def new_PPMModel_def new_ContextNode_def set_add_def js_slice_def
      addToken_def upto.simps PPMModel_predict_def PPMModel_predict_with_def js_slice_from_def
      below_cutoff_def CUTOFF_def distinctCount_def node_step_def handleOrderMinusOne_def)
section \<open>The n-gram store: keys and counters\<close>

text \<open>The key of an n-gram determines the n-gram.\<close>

declare string_of_nat.simps [simp del]

lemma digit_char_inj: "a < 10 \<Longrightarrow> b < 10 \<Longrightarrow> digit_char a = digit_char b \<Longrightarrow> a = b"
  unfolding digit_char_def by (subst (asm) nth_eq_iff_index_eq) simp_all

lemma digit_char_not_comma: "d < 10 \<Longrightarrow> digit_char d \<noteq> CHR '',''"
proof -
  assume "d < 10"
  then have "digit_char d \<in> set ''0123456789''"
    unfolding digit_char_def by (intro nth_mem) simp
  then show ?thesis by auto
qed

lemma string_of_nat_nonempty: "string_of_nat n \<noteq> []"
  by (subst string_of_nat.simps) simp

lemma string_of_nat_no_comma: "CHR '','' \<notin> set (string_of_nat n)"
proof (induction n rule: string_of_nat.induct)
  case (1 n)
  show ?case
  proof (cases "n < 10")
    case True
    then show ?thesis
      using digit_char_not_comma[of n] by (subst string_of_nat.simps) auto
  next
    case False
    have "n mod 10 < 10" by simp
    then have "digit_char (n mod 10) \<noteq> CHR '',''" by (rule digit_char_not_comma)
    then show ?thesis
      using False "1.IH" by (subst string_of_nat.simps) auto
  qed
qed

lemma string_of_nat_length: "length (string_of_nat n) = Suc 0 \<longleftrightarrow> n < 10"
proof (cases "n < 10")
  case True
  then show ?thesis by (subst string_of_nat.simps) simp
next
  case False
  have "length (string_of_nat (n div 10)) \<noteq> 0" using string_of_nat_nonempty by simp
  then show ?thesis using False by (subst string_of_nat.simps) simp
qed

lemma string_of_nat_inj: "string_of_nat n = string_of_nat m \<Longrightarrow> n = m"
proof (induction n arbitrary: m rule: string_of_nat.induct)
  case (1 n)
  show ?case
  proof (cases "n < 10")
    case True
    then have "length (string_of_nat m) = Suc 0"
      using "1.prems" string_of_nat_length[of n] by simp
    then have m: "m < 10" by (simp add: string_of_nat_length)
    have "[digit_char n] = [digit_char m]"
      using "1.prems" True m string_of_nat.simps[of n] string_of_nat.simps[of m] by simp
    then show ?thesis using True m digit_char_inj by simp
  next
    case False
    then have "length (string_of_nat m) \<noteq> Suc 0"
      using "1.prems" string_of_nat_length[of n] by simp
    then have m: "\<not> m < 10" by (simp add: string_of_nat_length)
    have "string_of_nat (n div 10) @ [digit_char (n mod 10)]
          = string_of_nat (m div 10) @ [digit_char (m mod 10)]"
      using "1.prems" False m string_of_nat.simps[of n] string_of_nat.simps[of m] by simp
    then have e: "string_of_nat (n div 10) = string_of_nat (m div 10)"
                 "digit_char (n mod 10) = digit_char (m mod 10)"
      by simp_all
    have "n div 10 = m div 10" using False e(1) by (intro "1.IH") auto
    moreover have "n mod 10 = m mod 10" using e(2) by (intro digit_char_inj) auto
    ultimately show ?thesis by (metis div_mult_mod_eq)
  qed
qed

lemma join_comma_head:
  "CHR '','' \<notin> set x \<Longrightarrow> takeWhile (\<lambda>c. c \<noteq> CHR '','') (join_comma (x # xs)) = x"
  by (cases xs) (auto simp: takeWhile_append)

lemma join_comma_rest:
  "CHR '','' \<notin> set x \<Longrightarrow>
   dropWhile (\<lambda>c. c \<noteq> CHR '','') (join_comma (x # xs))
     = (if xs = [] then [] else CHR '','' # join_comma xs)"
  by (cases xs) (auto simp: dropWhile_append)

lemma join_comma_nonempty: "x \<noteq> [] \<Longrightarrow> join_comma (x # xs) \<noteq> []"
  by (cases xs) auto

lemma toKey_inj: "toKey xs = toKey ys \<Longrightarrow> xs = ys"
proof (induction xs arbitrary: ys)
  case Nil
  then show ?case
    by (cases ys) (auto simp: toKey_def dest: sym[THEN join_comma_nonempty[OF string_of_nat_nonempty, THEN notE]])
next
  case (Cons x xs)
  show ?case
  proof (cases ys)
    case Nil
    then show ?thesis
      using Cons.prems join_comma_nonempty[OF string_of_nat_nonempty, of x "map string_of_nat xs"]
      by (simp add: toKey_def)
  next
    case (Cons y ys')
    define kx where "kx = join_comma (string_of_nat x # map string_of_nat xs)"
    define ky where "ky = join_comma (string_of_nat y # map string_of_nat ys')"
    have eq: "kx = ky" using Cons.prems Cons by (simp add: toKey_def kx_def ky_def)
    have "takeWhile (\<lambda>c. c \<noteq> CHR '','') kx = takeWhile (\<lambda>c. c \<noteq> CHR '','') ky"
      using eq by simp
    then have "string_of_nat x = string_of_nat y"
      by (simp add: kx_def ky_def join_comma_head string_of_nat_no_comma)
    then have xy: "x = y" by (rule string_of_nat_inj)
    have "dropWhile (\<lambda>c. c \<noteq> CHR '','') kx = dropWhile (\<lambda>c. c \<noteq> CHR '','') ky"
      using eq by simp
    then have d: "(if xs = [] then [] else CHR '','' # join_comma (map string_of_nat xs))
                  = (if ys' = [] then [] else CHR '','' # join_comma (map string_of_nat ys'))"
      by (simp add: kx_def ky_def join_comma_rest string_of_nat_no_comma)
    have "xs = ys'"
    proof (cases "xs = []")
      case True
      then show ?thesis using d by (auto split: if_splits)
    next
      case False
      then have "join_comma (map string_of_nat xs) = join_comma (map string_of_nat ys')"
        using d by (auto split: if_splits)
      then have "toKey xs = toKey ys'" by (simp add: toKey_def)
      then show ?thesis by (rule Cons.IH)
    qed
    then show ?thesis using xy Cons by simp
  qed
qed

lemma toKey_eq_iff: "toKey xs = toKey ys \<longleftrightarrow> xs = ys"
  using toKey_inj by auto

subsection \<open>What a sequence of insertions leaves in the store\<close>

lemma getCount_increment:
  "getCount (increment g s) h = getCount s h + (if h = g then 1 else 0)"
  by (simp add: getCount_def increment_def Let_def toKey_eq_iff)

lemma getCount_fold_increment:
  "getCount (fold increment gs s) h = getCount s h + count_list gs h"
  by (induction gs arbitrary: s) (auto simp: getCount_increment)

lemma getTotalTokens_increment:
  "getTotalTokens (increment g s) = getTotalTokens s + (if length g = 1 then 1 else 0)"
  by (simp add: getTotalTokens_def increment_def Let_def)

lemma getTotalTokens_fold_increment:
  "getTotalTokens (fold increment gs s)
     = getTotalTokens s + length (filter (\<lambda>g. length g = 1) gs)"
  by (induction gs arbitrary: s) (auto simp: getTotalTokens_increment)

lemma js_slice_butlast: "js_slice g 0 (- 1) = butlast g"
  by (cases "g = []") (auto simp: js_slice_def butlast_conv_take nat_diff_distrib' max_def)

lemma getCandidates_increment:
  "set (getCandidates (increment g s) C)
     = set (getCandidates s C) \<union> (if length g > 1 \<and> butlast g = C then {last g} else {})"
proof (cases "length g > 1")
  case True
  then have "g \<noteq> []" by auto
  then have "g ! (length g - 1) = last g" by (simp add: last_conv_nth)
  then show ?thesis
    using True
    by (auto simp: getCandidates_def increment_def Let_def js_slice_butlast toKey_eq_iff set_add_def
             split: option.splits)
next
  case False
  then show ?thesis by (simp add: getCandidates_def increment_def Let_def)
qed

lemma getCandidates_fold_increment:
  "set (getCandidates (fold increment gs s) C)
     = set (getCandidates s C) \<union> {t. C \<noteq> [] \<and> C @ [t] \<in> set gs}"
proof (induction gs arbitrary: s)
  case Nil
  then show ?case by simp
next
  case (Cons g gs)
  have "(if length g > 1 \<and> butlast g = C then {last g} else {}) = {t. C \<noteq> [] \<and> C @ [t] = g}"
  proof (cases "length g > 1 \<and> butlast g = C")
    case True
    then have "g \<noteq> []" "C \<noteq> []" by (auto simp: butlast_conv_take)
    moreover have "g = C @ [last g]" using True \<open>g \<noteq> []\<close> by (auto simp: append_butlast_last_id)
    ultimately show ?thesis using True by (auto dest: arg_cong[where f = last])
  next
    case False
    then show ?thesis by (auto simp: not_less)
  qed
  then show ?case by (auto simp: Cons.IH getCandidates_increment)
qed

section \<open>Training of Multiplicative Backoff: which n-grams are counted\<close>

lemma fold_map_filter:
  "fold f (map g (filter P xs)) s = fold (\<lambda>x s. if P x then f (g x) s else s) xs s"
  by (induction xs arbitrary: s) auto

lemma train_position_increments:
  "train_position n tokens i s = fold increment (position_ngrams n tokens i) s"
proof -
  have "(\<lambda>k s. if int i - k + 1 < 0 then s
               else increment (js_slice tokens (int i - k + 1) (int i + 1)) s)
        = (\<lambda>k s. if \<not> int i - k + 1 < 0
                  then increment (js_slice tokens (int i - k + 1) (int i + 1)) s else s)"
    by (intro ext) simp
  then show ?thesis
    by (simp add: train_position_def position_ngrams_def fold_map_filter)
qed

lemma train_tokens_increments:
  "train_tokens n tokens s = fold increment (all_ngrams n tokens) s"
proof -
  have "fold (train_position n tokens) is s
        = fold increment (concat (map (position_ngrams n tokens) is)) s" for "is"
    by (induction "is" arbitrary: s) (auto simp: train_position_increments)
  then show ?thesis by (simp add: train_tokens_def all_ngrams_def upto_ngrams_def)
qed

lemma slice_window:
  assumes "i < length ts" "1 \<le> k" "k \<le> int i + 1"
  shows "js_slice ts (int i - k + 1) (int i + 1) = drop (Suc i - nat k) (take (Suc i) ts)"
proof -
  have s: "nat (int i - k + 1) = Suc i - nat k" using assms by auto
  have "js_slice ts (int i - k + 1) (int i + 1)
        = take (nat (int i + 1 - (int i - k + 1))) (drop (nat (int i - k + 1)) ts)"
    using assms by (simp add: js_slice_def min_def)
  also have "nat (int i + 1 - (int i - k + 1)) = Suc i - (Suc i - nat k)" using assms by auto
  finally show ?thesis by (simp add: s drop_take)
qed

lemma position_ngrams_set:
  assumes "i < length ts"
  shows "g \<in> set (position_ngrams n ts i)
         \<longleftrightarrow> g \<noteq> [] \<and> int (length g) \<le> n \<and> suffix g (take (Suc i) ts)"
proof
  assume "g \<in> set (position_ngrams n ts i)"
  then obtain k where k: "1 \<le> k" "k \<le> n" "k \<le> int i + 1"
      and g: "g = js_slice ts (int i - k + 1) (int i + 1)"
    by (auto simp: position_ngrams_def)
  have g': "g = drop (Suc i - nat k) (take (Suc i) ts)"
    using g slice_window[OF assms k(1,3)] by simp
  have "length g = nat k" using g' assms k by auto
  then show "g \<noteq> [] \<and> int (length g) \<le> n \<and> suffix g (take (Suc i) ts)"
    using k g' by (auto simp: suffix_drop)
next
  assume a: "g \<noteq> [] \<and> int (length g) \<le> n \<and> suffix g (take (Suc i) ts)"
  define k where "k = int (length g)"
  have le: "length g \<le> Suc i" using a assms suffix_length_le[of g "take (Suc i) ts"] by simp
  have k: "1 \<le> k" "k \<le> n" "k \<le> int i + 1"
    using a le by (auto simp: k_def Suc_le_eq)
  obtain zs where zs: "take (Suc i) ts = zs @ g" using a by (auto simp: suffix_def)
  have "length zs = Suc i - length g" using arg_cong[OF zs, of length] assms by simp
  then have "g = drop (Suc i - nat k) (take (Suc i) ts)" using zs by (simp add: k_def)
  then have "g = js_slice ts (int i - k + 1) (int i + 1)"
    using slice_window[OF assms k(1,3)] by simp
  then show "g \<in> set (position_ngrams n ts i)"
    using k by (auto simp: position_ngrams_def)
qed

lemma position_ngrams_distinct:
  assumes "i < length ts"
  shows "distinct (position_ngrams n ts i)"
proof -
  have "inj_on (\<lambda>k. js_slice ts (int i - k + 1) (int i + 1))
               (set (filter (\<lambda>k. \<not> int i - k + 1 < 0) [1 .. n]))"
  proof (rule inj_onI)
    fix k k'
    assume k: "k \<in> set (filter (\<lambda>k. \<not> int i - k + 1 < 0) [1 .. n])"
       and k': "k' \<in> set (filter (\<lambda>k. \<not> int i - k + 1 < 0) [1 .. n])"
       and e: "js_slice ts (int i - k + 1) (int i + 1) = js_slice ts (int i - k' + 1) (int i + 1)"
    have 1: "1 \<le> k" "k \<le> int i + 1" "1 \<le> k'" "k' \<le> int i + 1" using k k' by auto
    have "length (drop (Suc i - nat k) (take (Suc i) ts))
          = length (drop (Suc i - nat k') (take (Suc i) ts))"
      using e slice_window[OF assms 1(1,2)] slice_window[OF assms 1(3,4)] by simp
    then show "k = k'" using assms 1 by auto
  qed
  then show ?thesis by (simp add: position_ngrams_def distinct_map)
qed

lemma count_list_distinct: "distinct xs \<Longrightarrow> count_list xs x = (if x \<in> set xs then 1 else 0)"
  by (induction xs) auto

lemma position_ngrams_count:
  assumes "i < length ts"
  shows "count_list (position_ngrams n ts i) g
         = (if g \<noteq> [] \<and> int (length g) \<le> n \<and> suffix g (take (Suc i) ts) then 1 else 0)"
  using assms by (simp add: count_list_distinct position_ngrams_distinct position_ngrams_set)

lemma upto_ngrams_Suc:
  "upto_ngrams n ts (Suc m) = upto_ngrams n ts m @ position_ngrams n ts m"
  by (simp add: upto_ngrams_def)

lemma suffix_butlast_snoc: "suffix g (xs @ [x]) \<Longrightarrow> g \<noteq> [] \<Longrightarrow> suffix (butlast g) xs"
  by (auto simp: suffix_snoc)

lemma upto_ngrams_prefix_counted:
  "m \<le> length ts \<Longrightarrow> 2 \<le> length g \<Longrightarrow>
   count_list (upto_ngrams n ts m) g
     + (if suffix (butlast g) (take m ts) \<and> int (length g) - 1 \<le> n then 1 else 0)
   \<le> count_list (upto_ngrams n ts m) (butlast g)"
proof (induction m)
  case 0
  then have "butlast g \<noteq> []" by (cases g rule: rev_cases) auto
  then show ?case by (simp add: upto_ngrams_def)
next
  case (Suc m)
  then have m: "m < length ts" by simp
  have bne: "butlast g \<noteq> []" using Suc.prems(2) by (cases g rule: rev_cases) auto
  have gne: "g \<noteq> []" using Suc.prems(2) by auto
  have lb: "int (length (butlast g)) = int (length g) - 1" using gne by (cases g) simp_all
  have IH: "count_list (upto_ngrams n ts m) g
            + (if suffix (butlast g) (take m ts) \<and> int (length g) - 1 \<le> n then 1 else 0)
            \<le> count_list (upto_ngrams n ts m) (butlast g)"
    using Suc by simp
  have e: "(if g \<noteq> [] \<and> int (length g) \<le> n \<and> suffix g (take (Suc m) ts) then 1 else 0)
           \<le> (if suffix (butlast g) (take m ts) \<and> int (length g) - 1 \<le> n then 1 else (0::nat))"
    using suffix_butlast_snoc[of g "take m ts" "ts ! m"] m
    by (auto simp: take_Suc_conv_app_nth)
  show ?case
    using IH e bne lb
    by (simp add: upto_ngrams_Suc position_ngrams_count[OF m])
qed

lemma all_ngrams_prefix_counted:
  "2 \<le> length g \<Longrightarrow> count_list (all_ngrams n ts) g \<le> count_list (all_ngrams n ts) (butlast g)"
  using upto_ngrams_prefix_counted[of "length ts" ts g n] by (simp add: all_ngrams_def)

lemma prefix_counted_new: "prefix_counted new_NGramStore"
  by (simp add: prefix_counted_def getCount_def new_NGramStore_def)

lemma prefix_counted_train_tokens:
  "prefix_counted s \<Longrightarrow> prefix_counted (train_tokens n ts s)"
  unfolding prefix_counted_def train_tokens_increments getCount_fold_increment
  using all_ngrams_prefix_counted[of _ n ts] by (meson add_mono)
section \<open>The tokenizer: sentence markers\<close>

lemma scan_word_like: "\<forall>m \<in> set (scan u s). word_like u m"
  by (induction u s rule: scan.induct) (auto simp: word_like_def Let_def)

lemma tk_ok_new: "tk_ok (new_AdvancedTokenizer yo minlen)"
  by (simp add: tk_ok_def new_AdvancedTokenizer_def registerToken_def UNK_def BOS_def EOS_def)

lemma registerToken_ok:
  assumes "tk_ok tk" "registerToken w tk = (i, tk')" "w \<noteq> BOS" "w \<noteq> EOS"
  shows "tk_ok tk' \<and> BOS_ID tk' = BOS_ID tk \<and> EOS_ID tk' = EOS_ID tk
         \<and> config tk' = config tk \<and> i \<noteq> BOS_ID tk \<and> i \<noteq> EOS_ID tk"
proof (cases "wordToId tk w")
  case None
  then show ?thesis using assms by (auto simp: registerToken_def tk_ok_def Let_def split: if_splits)
next
  case (Some j)
  then show ?thesis using assms by (auto simp: registerToken_def tk_ok_def)
qed

lemma eos_then_bos_snoc:
  "eos_then_bos B E (xs @ [z]) \<longleftrightarrow> eos_then_bos B E xs \<and> (xs \<noteq> [] \<and> last xs = E \<longrightarrow> z = B)"
  by (induction B E xs rule: eos_then_bos.induct) auto

lemma eos_then_bos_snoc2:
  "eos_then_bos B E (xs @ [y, z])
   \<longleftrightarrow> eos_then_bos B E xs \<and> (xs \<noteq> [] \<and> last xs = E \<longrightarrow> y = B) \<and> (y = E \<longrightarrow> z = B)"
  using eos_then_bos_snoc[of B E "xs @ [y]" z] by (simp add: eos_then_bos_snoc)

lemma eos_then_bos_butlast: "eos_then_bos B E xs \<Longrightarrow> eos_then_bos B E (butlast xs)"
  by (cases xs rule: rev_cases) (auto simp: eos_then_bos_snoc)

lemma eos_then_bos_nth:
  "eos_then_bos B E xs \<Longrightarrow> Suc i < length xs \<Longrightarrow> xs ! i = E \<Longrightarrow> xs ! Suc i = B"
proof (induction B E xs arbitrary: i rule: eos_then_bos.induct)
  case (3 B E x y ys)
  then show ?case by (cases i) auto
qed auto

lemma special_not_word:
  assumes "\<not> is_Letter u 60" "\<not> is_Number u 60" "word_like u (Word w)"
  shows "w \<noteq> BOS \<and> w \<noteq> EOS"
  using assms by (auto simp: word_like_def BOS_def EOS_def)

lemma tokenize_loop_inv:
  assumes "\<not> is_Letter u 60" "\<not> is_Number u 60"
  shows "\<forall>m \<in> set ms. word_like u m \<Longrightarrow> loop_inv B E st \<Longrightarrow> loop_inv B E (tokenize_loop ms st)"
proof (induction ms st rule: tokenize_loop.induct)
  case (1 st)
  then show ?case by simp
next
  case (2 word ms result isSentenceStart tk)
  show ?case
  proof (cases "int (js_length word) < minWordLength (config tk)")
    case True
    then show ?thesis using 2 by simp
  next
    case False
    obtain i tk' where r: "registerToken word tk = (i, tk')" by (cases "registerToken word tk")
    have w: "word \<noteq> BOS \<and> word \<noteq> EOS"
      using special_not_word[OF assms] "2.prems"(1) by simp
    have ok: "tk_ok tk' \<and> BOS_ID tk' = BOS_ID tk \<and> EOS_ID tk' = EOS_ID tk
              \<and> config tk' = config tk \<and> i \<noteq> BOS_ID tk \<and> i \<noteq> EOS_ID tk"
      using registerToken_ok[OF _ r] w "2.prems"(2) by (simp add: loop_inv_def)
    have "loop_inv B E (result @ [i], False, tk')"
      using "2.prems"(2) ok by (auto simp: loop_inv_def eos_then_bos_snoc)
    then have "loop_inv B E (tokenize_loop ms (result @ [i], False, tk'))"
      using False r "2.prems"(1) by (intro "2.IH"(2)) auto
    then show ?thesis using False r by simp
  qed
next
  case (3 punctuation ms result isSentenceStart tk)
  show ?case
  proof (cases isSentenceStart)
    case True
    then show ?thesis using 3 by simp
  next
    case False
    have "loop_inv B E (result @ [EOS_ID tk, BOS_ID tk], True, tk)"
    proof -
      have "butlast (result @ [E, B]) = result @ [E]" by (simp add: butlast_append)
      then show ?thesis
        using "3.prems"(2) False
        unfolding loop_inv_def
        by (auto simp: eos_then_bos_snoc2 tk_ok_def)
    qed
    then have "loop_inv B E (tokenize_loop ms (result @ [EOS_ID tk, BOS_ID tk], True, tk))"
      using False "3.prems"(1) by (intro "3.IH"(1)) auto
    then show ?thesis using False by simp
  qed
qed

lemma loop_inv_initial: "tk_ok tk \<Longrightarrow> loop_inv (BOS_ID tk) (EOS_ID tk) ([BOS_ID tk], True, tk)"
  by (simp add: loop_inv_def tk_ok_def)

lemma tokenize_shape:
  assumes u: "\<not> is_Letter u 60" "\<not> is_Number u 60" and ok: "tk_ok tk"
  shows "(fst (tokenize u tk text) \<noteq> [] \<longrightarrow> last (fst (tokenize u tk text)) \<noteq> BOS_ID tk)
         \<and> eos_then_bos (BOS_ID tk) (EOS_ID tk) (fst (tokenize u tk text))
         \<and> tk_ok (snd (tokenize u tk text))
         \<and> BOS_ID (snd (tokenize u tk text)) = BOS_ID tk
         \<and> EOS_ID (snd (tokenize u tk text)) = EOS_ID tk"
proof -
  define B where "B = BOS_ID tk"
  define E where "E = EOS_ID tk"
  define ms where "ms = scan u (preprocessText u tk text)"
  obtain r iss tk' where l: "tokenize_loop ms ([B], True, tk) = (r, iss, tk')"
    by (cases "tokenize_loop ms ([B], True, tk)") auto
  have "loop_inv B E (tokenize_loop ms ([B], True, tk))"
    using scan_word_like[of u "preprocessText u tk text"] loop_inv_initial[OF ok]
    by (intro tokenize_loop_inv[OF u]) (auto simp: ms_def B_def E_def)
  then have inv: "r \<noteq> []" "eos_then_bos B E r" "last r \<noteq> E" "iss \<longleftrightarrow> last r = B"
      "last r = B \<and> 2 \<le> length r \<longrightarrow> last (butlast r) = E"
      "tk_ok tk'" "BOS_ID tk' = B" "EOS_ID tk' = E"
    by (simp_all add: l loop_inv_def)
  have ne: "B \<noteq> E" using ok by (simp add: tk_ok_def B_def E_def)
  have t: "tokenize u tk text
           = (if js_last r = Some B then butlast r
              else if js_last r \<noteq> Some E then r @ [E] else r, tk')"
    using l by (simp add: tokenize_def ms_def B_def E_def Let_def)
  show ?thesis
  proof (cases "last r = B")
    case True
    have "butlast r \<noteq> [] \<Longrightarrow> 2 \<le> length r"
      by (cases r rule: rev_cases) (auto simp: Suc_le_eq)
    then have "butlast r \<noteq> [] \<longrightarrow> last (butlast r) \<noteq> B" using inv(5) True ne by auto
    then show ?thesis
      using True inv t by (simp add: js_last_def eos_then_bos_butlast B_def E_def)
  next
    case False
    then show ?thesis
      using inv t ne by (simp add: js_last_def eos_then_bos_snoc B_def E_def)
  qed
qed

lemma tokenizer_after_ok:
  assumes "\<not> is_Letter u 60" "\<not> is_Number u 60"
  shows "tk_ok (tokenizer_after u yo minlen texts)"
proof -
  have "tk_ok tk \<Longrightarrow> tk_ok (fold (\<lambda>text tk. snd (tokenize u tk text)) texts tk)" for tk
    by (induction texts arbitrary: tk) (auto simp: tokenize_shape[OF assms])
  then show ?thesis by (simp add: tokenizer_after_def tk_ok_new)
qed

lemma tokenize_empty:
  assumes "normalize_NFC u [] = []" "toLocaleLowerCase u [] = []"
  shows "fst (tokenize u tk []) = []"
  using assms by (simp add: tokenize_def preprocessText_def js_last_def)

text \<open>
  Claim C5. Let the code point 60 (\<^verbatim>\<open><\<close>) be neither a letter nor a number, and let
  normalization and lower-casing keep the empty text empty, as Unicode has it. Then for
  a tokenizer at any moment of its life and every text, the token sequence returned by
  \<^verbatim>\<open>tokenize\<close> does not end with \<^verbatim>\<open>BOS_ID\<close>, every \<^verbatim>\<open>EOS_ID\<close> that is not its last token
  is followed by \<^verbatim>\<open>BOS_ID\<close>, and the empty text gives the empty sequence.
\<close>

theorem tokenizer_boundary_closure:
  assumes "\<not> is_Letter u 60" and "\<not> is_Number u 60"
    and "normalize_NFC u [] = []" and "toLocaleLowerCase u [] = []"
  shows "(fst (tokenize u (tokenizer_after u yo minlen texts) text) \<noteq> [] \<longrightarrow>
            last (fst (tokenize u (tokenizer_after u yo minlen texts) text))
              \<noteq> BOS_ID (tokenizer_after u yo minlen texts))
       \<and> (\<forall>i. Suc i < length (fst (tokenize u (tokenizer_after u yo minlen texts) text))
              \<and> fst (tokenize u (tokenizer_after u yo minlen texts) text) ! i
                  = EOS_ID (tokenizer_after u yo minlen texts) \<longrightarrow>
              fst (tokenize u (tokenizer_after u yo minlen texts) text) ! Suc i
                = BOS_ID (tokenizer_after u yo minlen texts))
       \<and> fst (tokenize u (tokenizer_after u yo minlen texts) []) = []"
proof -
  define tk where "tk = tokenizer_after u yo minlen texts"
  have ok: "tk_ok tk" unfolding tk_def using assms(1,2) by (rule tokenizer_after_ok)
  note s = tokenize_shape[OF assms(1,2) ok, of "text"]
  have "\<forall>i. Suc i < length (fst (tokenize u tk text)) \<and> fst (tokenize u tk text) ! i = EOS_ID tk
           \<longrightarrow> fst (tokenize u tk text) ! Suc i = BOS_ID tk"
    using s eos_then_bos_nth by blast
  then show ?thesis
    using s tokenize_empty[OF assms(3,4), of tk] unfolding tk_def by blast
qed

subsection \<open>Tokenizing the same text again\<close>

lemma registerToken_extends:
  "registerToken w tk = (i, tk') \<Longrightarrow> extends tk tk' \<and> wordToId tk' w = Some i"
  by (cases "wordToId tk w") (auto simp: registerToken_def extends_def Let_def)

lemma extends_trans: "extends a b \<Longrightarrow> extends b c \<Longrightarrow> extends a c"
  by (simp add: extends_def)

lemma extends_refl: "extends a a"
  by (simp add: extends_def)

lemma tokenize_loop_extends:
  "tokenize_loop ms st = st' \<Longrightarrow> extends (snd (snd st)) (snd (snd st'))"
proof (induction ms st arbitrary: st' rule: tokenize_loop.induct)
  case (1 st)
  then show ?case by (auto simp: extends_refl)
next
  case (2 word ms result isSentenceStart tk)
  show ?case
  proof (cases "int (js_length word) < minWordLength (config tk)")
    case True
    then show ?thesis using 2 by simp
  next
    case False
    obtain i tk1 where r: "registerToken word tk = (i, tk1)" by (cases "registerToken word tk")
    have "extends (snd (snd (result @ [i], False, tk1))) (snd (snd st'))"
      using False r "2.prems" by (intro "2.IH"(2)) auto
    then show ?thesis using registerToken_extends[OF r] extends_trans by auto
  qed
next
  case (3 punctuation ms result isSentenceStart tk)
  then show ?case by (cases isSentenceStart) auto
qed

lemma tokenize_loop_replay:
  "tokenize_loop ms st = st' \<Longrightarrow> extends (snd (snd st')) W \<Longrightarrow> extends (snd (snd st)) W \<Longrightarrow>
   tokenize_loop ms (fst st, fst (snd st), W) = (fst st', fst (snd st'), W)"
proof (induction ms st arbitrary: st' rule: tokenize_loop.induct)
  case (1 st)
  then show ?case by auto
next
  case (2 word ms result isSentenceStart tk)
  have cfg: "config W = config tk" using "2.prems"(3) by (simp add: extends_def)
  show ?case
  proof (cases "int (js_length word) < minWordLength (config tk)")
    case True
    then show ?thesis using 2 cfg by simp
  next
    case False
    obtain i tk1 where reg: "registerToken word tk = (i, tk1)" by (cases "registerToken word tk")
    have rest: "tokenize_loop ms (result @ [i], False, tk1) = st'"
      using "2.prems"(1) False reg by simp
    have e1: "extends tk1 (snd (snd st'))" using tokenize_loop_extends[OF rest] by simp
    then have e1W: "extends tk1 W" using "2.prems"(2) extends_trans by blast
    have "wordToId tk1 word = Some i" using registerToken_extends[OF reg] by simp
    then have "wordToId W word = Some i" using e1W by (simp add: extends_def)
    then have regW: "registerToken word W = (i, W)" by (simp add: registerToken_def)
    have "tokenize_loop ms (fst (result @ [i], False, tk1), fst (snd (result @ [i], False, tk1)), W)
          = (fst st', fst (snd st'), W)"
      using False reg rest "2.prems"(2) e1W by (intro "2.IH"(2)) auto
    then show ?thesis using False regW cfg by simp
  qed
next
  case (3 punctuation ms result isSentenceStart tk)
  have ids: "EOS_ID W = EOS_ID tk" "BOS_ID W = BOS_ID tk"
    using "3.prems"(3) by (simp_all add: extends_def)
  show ?case
  proof (cases isSentenceStart)
    case True
    then show ?thesis using 3 by simp
  next
    case False
    then show ?thesis using 3 ids by simp
  qed
qed

lemma tokenize_replay:
  assumes "tokenize u tk text = (ids, tk')"
  shows "tokenize u tk' text = (ids, tk')"
proof -
  define ms where "ms = scan u (preprocessText u tk text)"
  obtain r f tk1 where l: "tokenize_loop ms ([BOS_ID tk], True, tk) = (r, f, tk1)"
    by (cases "tokenize_loop ms ([BOS_ID tk], True, tk)") auto
  have t: "tokenize u tk text
           = (if js_last r = Some (BOS_ID tk) then butlast r
              else if js_last r \<noteq> Some (EOS_ID tk) then r @ [EOS_ID tk] else r, tk1)"
    using l by (simp add: tokenize_def ms_def Let_def)
  have tk1: "tk1 = tk'" using assms t by simp
  have e: "extends tk tk'" using tokenize_loop_extends[OF l] tk1 by simp
  have same: "BOS_ID tk' = BOS_ID tk" "EOS_ID tk' = EOS_ID tk" "config tk' = config tk"
    using e by (simp_all add: extends_def)
  have p: "preprocessText u tk' text = preprocessText u tk text"
    by (simp add: preprocessText_def same)
  have l': "tokenize_loop ms ([BOS_ID tk], True, tk') = (r, f, tk')"
    using tokenize_loop_replay[OF l, of tk'] e tk1 by (simp add: extends_refl)
  have "tokenize u tk' text
           = (if js_last r = Some (BOS_ID tk) then butlast r
              else if js_last r \<noteq> Some (EOS_ID tk) then r @ [EOS_ID tk] else r, tk')"
    using l' by (simp add: tokenize_def ms_def[symmetric] p same Let_def)
  then show ?thesis using assms t tk1 by simp
qed
section \<open>Multiplicative Backoff: training and scores\<close>

lemma train_n: "sb_n (StupidBackoffModel_train u text m) = sb_n m"
  by (simp add: StupidBackoffModel_train_def split: prod.splits)

lemma train_store:
  "sb_store (StupidBackoffModel_train u text m)
     = train_tokens (sb_n m) (fst (tokenize u (sb_tokenizer m) text)) (sb_store m)"
  by (simp add: StupidBackoffModel_train_def split: prod.splits)

lemma train_tokenizer:
  "sb_tokenizer (StupidBackoffModel_train u text m) = snd (tokenize u (sb_tokenizer m) text)"
  by (simp add: StupidBackoffModel_train_def split: prod.splits)

lemma prefix_counted_trained:
  "prefix_counted (sb_store (StupidBackoffModel_trained u n tk texts))"
proof -
  have "prefix_counted (sb_store m) \<Longrightarrow> prefix_counted (sb_store (fold (StupidBackoffModel_train u) texts m))"
    for m
    by (induction texts arbitrary: m) (auto simp: train_store prefix_counted_train_tokens)
  then show ?thesis
    by (simp add: StupidBackoffModel_trained_def new_StupidBackoffModel_def prefix_counted_new)
qed

lemma context_count_positive:
  assumes "prefix_counted s" "context \<noteq> []" "0 < getCount s (context @ [candidate])"
  shows "0 < getCount s context"
proof -
  have "2 \<le> length (context @ [candidate])" using assms(2) by (cases "context") auto
  then have "getCount s (context @ [candidate]) \<le> getCount s (butlast (context @ [candidate]))"
    using assms(1) unfolding prefix_counted_def by blast
  then show ?thesis using assms(3) by simp
qed

text \<open>
  Claim C9. For every text, every order and every tokenizer, a model with a new store
  that is trained twice on the text has, for every n-gram, twice the counter it has after
  one training.
\<close>

theorem train_twice_doubles:
  "getCount (sb_store (StupidBackoffModel_train u text (StupidBackoffModel_train u text
       (new_StupidBackoffModel n tk new_NGramStore)))) ngram
   = 2 * getCount (sb_store (StupidBackoffModel_train u text
       (new_StupidBackoffModel n tk new_NGramStore))) ngram"
proof -
  obtain ids tk' where t: "tokenize u tk text = (ids, tk')" by (cases "tokenize u tk text")
  have t': "tokenize u tk' text = (ids, tk')" using t by (rule tokenize_replay)
  have "getCount new_NGramStore ngram = 0" by (simp add: getCount_def new_NGramStore_def)
  then show ?thesis
    using t t'
    by (simp add: train_store train_tokenizer train_n new_StupidBackoffModel_def
        train_tokens_increments getCount_fold_increment)
qed

text \<open>
  Claim C10. After any sequence of \<^verbatim>\<open>train\<close> calls on a model with a new store, an
  n-gram of length \<open>\<ge> 2\<close> with a positive counter has a context (the n-gram without its
  last token) whose counter is at least as large, hence positive; so when
  \<^verbatim>\<open>count(context + candidate) > 0\<close> in \<^verbatim>\<open>getScore\<close>, the counter of the context is
  positive and the branch that returns 0 is not taken.
\<close>

theorem context_counted:
  "(2 \<le> length ngram \<and> 0 < getCount (sb_store (StupidBackoffModel_trained u n tk texts)) ngram \<longrightarrow>
      getCount (sb_store (StupidBackoffModel_trained u n tk texts)) ngram
        \<le> getCount (sb_store (StupidBackoffModel_trained u n tk texts)) (butlast ngram)
      \<and> 0 < getCount (sb_store (StupidBackoffModel_trained u n tk texts)) (butlast ngram))
   \<and> (context \<noteq> []
       \<and> 0 < getCount (sb_store (StupidBackoffModel_trained u n tk texts)) (context @ [candidate]) \<longrightarrow>
      0 < getCount (sb_store (StupidBackoffModel_trained u n tk texts)) context)"
  using prefix_counted_trained[of u n tk texts] context_count_positive
  unfolding prefix_counted_def by fastforce

declare getScore.simps [simp del]

lemma slice_from_1: "js_slice_from xs 1 = tl xs"
  by (cases xs) (auto simp: js_slice_from_def js_slice_def)

lemma getScore_empty:
  "getScore s candidate []
     = (if 0 < getTotalTokens s then real (getCount s [candidate]) / real (getTotalTokens s) else 0)"
  by (subst getScore.simps) simp

lemma getScore_found:
  "context \<noteq> [] \<Longrightarrow> 0 < getCount s (context @ [candidate]) \<Longrightarrow> 0 < getCount s context \<Longrightarrow>
   getScore s candidate context
     = real (getCount s (context @ [candidate])) / real (getCount s context)"
  by (subst getScore.simps) simp

lemma getScore_backoff:
  "context \<noteq> [] \<Longrightarrow> getCount s (context @ [candidate]) = 0 \<Longrightarrow>
   getScore s candidate context = 4 / 10 * getScore s candidate (tl context)"
  by (subst getScore.simps) (simp add: slice_from_1 ALPHA_def)

text \<open>
  Claim C2. After any sequence of \<^verbatim>\<open>train\<close> calls on a model with a new store: for the
  empty context the score is the counter of the unigram over the number of tokens seen,
  or 0 when no token was seen; for a context of length \<open>\<ge> 1\<close> whose n-gram with the
  candidate was seen, the counter of the context is positive and the score is the ratio of
  the two counters, with no factor 0.4; otherwise the score is 0.4 times the score for
  the context without its oldest token.
\<close>

theorem stupid_backoff_score:
  "getScore (sb_store (StupidBackoffModel_trained u n tk texts)) candidate []
     = (if 0 < getTotalTokens (sb_store (StupidBackoffModel_trained u n tk texts))
        then real (getCount (sb_store (StupidBackoffModel_trained u n tk texts)) [candidate])
             / real (getTotalTokens (sb_store (StupidBackoffModel_trained u n tk texts)))
        else 0)
   \<and> (context \<noteq> []
       \<and> 0 < getCount (sb_store (StupidBackoffModel_trained u n tk texts)) (context @ [candidate]) \<longrightarrow>
      0 < getCount (sb_store (StupidBackoffModel_trained u n tk texts)) context
      \<and> getScore (sb_store (StupidBackoffModel_trained u n tk texts)) candidate context
          = real (getCount (sb_store (StupidBackoffModel_trained u n tk texts)) (context @ [candidate]))
            / real (getCount (sb_store (StupidBackoffModel_trained u n tk texts)) context))
   \<and> (context \<noteq> []
       \<and> getCount (sb_store (StupidBackoffModel_trained u n tk texts)) (context @ [candidate]) = 0 \<longrightarrow>
      getScore (sb_store (StupidBackoffModel_trained u n tk texts)) candidate context
        = 4 / 10 * getScore (sb_store (StupidBackoffModel_trained u n tk texts)) candidate (tl context))"
  using context_count_positive[OF prefix_counted_trained[of u n tk texts], of "context" candidate]
  by (auto simp: getScore_empty getScore_found getScore_backoff)

section \<open>The candidate index\<close>

text \<open>
  Claim C4, as amended. After every sequence of insertions into a new store, for every
  context of length \<open>\<ge> 1\<close>, a token is among the candidates of the context if and only
  if some inserted n-gram is the context followed by that token; the candidates of the
  empty context are always empty, since \<^verbatim>\<open>increment\<close> registers a candidate only for an
  n-gram of length \<open>> 1\<close>.
\<close>

theorem candidates_of_context:
  "(context \<noteq> [] \<longrightarrow>
      (t \<in> set (getCandidates (fold increment ngrams new_NGramStore) context)
       \<longleftrightarrow> context @ [t] \<in> set ngrams))
   \<and> getCandidates (fold increment ngrams new_NGramStore) [] = []"
proof -
  have "getCandidates new_NGramStore c = []" for c
    by (simp add: getCandidates_def new_NGramStore_def)
  then show ?thesis
    using getCandidates_fold_increment[of ngrams new_NGramStore]
    by (auto simp del: set_empty simp: set_empty[symmetric])
qed

section \<open>Examples\<close>

lemma example_tokens:
  "fst (tokenize ascii (new_AdvancedTokenizer None None) example_text) = [1, 3, 4, 2]"
  by (simp add: tokenize_def new_AdvancedTokenizer_def registerToken_def UNK_def BOS_def EOS_def
      preprocessText_def ascii_def js_length_def js_last_def example_text_def is_boundary_def)

lemma example_ngrams:
  "all_ngrams 2 (fst (tokenize ascii (new_AdvancedTokenizer None None) example_text))
     = [[1], [3], [1, 3], [4], [3, 4], [2], [4, 2]]"
  by (simp add: example_tokens all_ngrams_def upto_ngrams_def position_ngrams_def js_slice_def upto.simps
      upt_rec[of 0] upt_rec[of 1] upt_rec[of 2] upt_rec[of 3])

lemma example_store_increments:
  "example_store
     = fold increment [[1], [3], [1, 3], [4], [3, 4], [2], [4, 2]] new_NGramStore"
proof -
  have "example_store
        = train_tokens 2 (fst (tokenize ascii (new_AdvancedTokenizer None None) example_text))
            new_NGramStore"
    by (simp add: example_store_def StupidBackoffModel_trained_def train_store
        new_StupidBackoffModel_def)
  then show ?thesis by (simp only: train_tokens_increments example_ngrams)
qed

lemma example_counts:
  "getCount example_store [3, 4] = 1" "getCount example_store [3] = 1"
  "getCount example_store [4, 3] = 0" "getCount example_store [4] = 1"
  "getTotalTokens example_store = 4"
  unfolding example_store_increments getCount_fold_increment getTotalTokens_fold_increment
  by (simp_all add: getCount_def getTotalTokens_def new_NGramStore_def)

text \<open>
  Claim C10 on the example: the bigram \<open>[3, 4]\<close> and its context \<open>[3]\<close> are both
  counted once.
\<close>

theorem context_counted_witness:
  "0 < getCount example_store [3, 4]
   \<and> getCount example_store [3, 4] \<le> getCount example_store [3]
   \<and> 0 < getCount example_store [3]"
proof -
  have p: "2 \<le> length [3, 4 :: nat] \<and> 0 < getCount example_store [3, 4]"
    by (simp add: example_counts)
  have c: "[3 :: nat] \<noteq> [] \<and> 0 < getCount example_store ([3] @ [4])"
    by (simp add: example_counts)
  note t = context_counted[of "[3, 4]" ascii 2 "new_AdvancedTokenizer None None" "[example_text]"
             "[3]" 4, folded example_store_def]
  show ?thesis using t p c by simp
qed

text \<open>
  Claim C2 on the example: the unigram score \<open>1 / 4\<close>, the score 1 of the seen bigram
  \<open>[3, 4]\<close>, and the score \<open>0.4 * 1 / 4\<close> of the unseen bigram \<open>[4, 3]\<close>.
\<close>

theorem stupid_backoff_score_witness:
  "getScore example_store 3 [] = 1 / 4
   \<and> getScore example_store 4 [3] = 1
   \<and> getScore example_store 3 [4] = 1 / 10"
proof -
  note found = stupid_backoff_score[of ascii 2 "new_AdvancedTokenizer None None" "[example_text]"
                 4 "[3]", folded example_store_def]
  note backoff = stupid_backoff_score[of ascii 2 "new_AdvancedTokenizer None None" "[example_text]"
                 3 "[4]", folded example_store_def]
  have 0: "getScore example_store 3 [] = 1 / 4" using backoff by (simp add: example_counts)
  have 1: "getScore example_store 4 [3] = 1" using found by (simp add: example_counts)
  have 2: "getScore example_store 3 [4] = 1 / 10" using backoff 0 by (simp add: example_counts)
  show ?thesis using 0 1 2 by simp
qed

text \<open>
  Claim C4 as stated fails for the empty context: after the insertion of \<open>[5]\<close> the
  token 5 has followed the empty context, and the candidates of the empty context are
  empty.
\<close>

theorem candidates_empty_context_counterexample:
  "\<not> (5 \<in> set (getCandidates (fold increment [[5]] new_NGramStore) [])
       \<longleftrightarrow> [] @ [5] \<in> set [[5 :: nat]])"
  by (simp add: getCandidates_def increment_def new_NGramStore_def toKey_def)

text \<open>
  Claim C4, as amended, after the insertions of \<open>[3, 4]\<close> and \<open>[3]\<close>.
\<close>

theorem candidates_of_context_witness:
  "4 \<in> set (getCandidates (fold increment [[3, 4], [3]] new_NGramStore) [3])
   \<and> 3 \<notin> set (getCandidates (fold increment [[3, 4], [3]] new_NGramStore) [3])
   \<and> getCandidates (fold increment [[3, 4], [3]] new_NGramStore) [] = []"
  using candidates_of_context[of "[3]" 4 "[[3, 4], [3]]"]
        candidates_of_context[of "[3]" 3 "[[3, 4], [3]]"]
  by simp

text \<open>
  Claim C5 on the text \<^verbatim>\<open>a. b\<close> with the ASCII tables and a new tokenizer.
\<close>

theorem tokenizer_boundary_closure_witness:
  "fst (tokenize ascii (tokenizer_after ascii None None []) [97, 46, 32, 98]) = [1, 3, 2, 1, 4, 2]
   \<and> last (fst (tokenize ascii (tokenizer_after ascii None None []) [97, 46, 32, 98]))
       \<noteq> BOS_ID (tokenizer_after ascii None None [])
   \<and> fst (tokenize ascii (tokenizer_after ascii None None []) [97, 46, 32, 98]) ! 2
       = EOS_ID (tokenizer_after ascii None None [])
   \<and> fst (tokenize ascii (tokenizer_after ascii None None []) [97, 46, 32, 98]) ! 3
       = BOS_ID (tokenizer_after ascii None None [])
   \<and> fst (tokenize ascii (tokenizer_after ascii None None []) []) = []"
proof -
  define tk where "tk = tokenizer_after ascii None None []"
  define r where "r = fst (tokenize ascii tk [97, 46, 32, 98])"
  have e: "r = [1, 3, 2, 1, 4, 2]"
    by (simp add: r_def tk_def tokenizer_after_def tokenize_def new_AdvancedTokenizer_def
        registerToken_def UNK_def BOS_def EOS_def preprocessText_def ascii_def js_length_def
        js_last_def is_boundary_def)
  have ids: "EOS_ID tk = 2" "BOS_ID tk = 1"
    by (simp_all add: tk_def tokenizer_after_def new_AdvancedTokenizer_def registerToken_def
        UNK_def BOS_def EOS_def)
  have h: "\<not> is_Letter ascii 60" "\<not> is_Number ascii 60"
    "normalize_NFC ascii [] = []" "toLocaleLowerCase ascii [] = []"
    by (simp_all add: ascii_def)
  note t = tokenizer_boundary_closure[OF h, of None None "[]" "[97, 46, 32, 98]",
             folded tk_def, folded r_def]
  have 1: "last r \<noteq> BOS_ID tk" using t e by simp
  have "Suc 2 < length r \<and> r ! 2 = EOS_ID tk" by (simp add: e ids)
  then have 2: "r ! Suc 2 = BOS_ID tk" using t by blast
  have 3: "fst (tokenize ascii tk []) = []" using t by simp
  show ?thesis using e 1 2 3 ids unfolding r_def tk_def by (simp add: numeral_3_eq_3)
qed

text \<open>
  Claim C7 fails on the code. With \<^verbatim>\<open>minWordLength = 2\<close> the text \<^verbatim>\<open>7\<close>, a run of
  digits of length 1, is filtered out like any other short word and the result is empty;
  with \<^verbatim>\<open>minWordLength = 1\<close> the same text gives \<^verbatim>\<open>BOS\<close>, the word and \<^verbatim>\<open>EOS\<close>. The
  comment in the source says that digits are not filtered.
\<close>

theorem short_digits_filtered:
  "fst (tokenize ascii (new_AdvancedTokenizer None (Some 2)) [55]) = []
   \<and> fst (tokenize ascii (new_AdvancedTokenizer None (Some 1)) [55]) = [1, 3, 2]"
  by (simp add: tokenize_def new_AdvancedTokenizer_def registerToken_def UNK_def BOS_def EOS_def
      preprocessText_def ascii_def js_length_def js_last_def is_boundary_def)

text \<open>
  Claim C8 fails on the code. The constructor of \<^verbatim>\<open>PPM\<close> rejects the order 0; the
  constructors of \<^verbatim>\<open>StupidBackoffModel\<close> and \<^verbatim>\<open>PPMModel\<close> take it: the first model then
  stores no n-gram when it is trained, the second one predicts from unigram counts.
\<close>

theorem order_zero_constructed:
  "new_PPM 0 = Inl (Error ''Order must be > 0'')
   \<and> sb_n (new_StupidBackoffModel 0 (new_AdvancedTokenizer None None) new_NGramStore) = 0
   \<and> getTotalTokens (sb_store (StupidBackoffModel_train ascii example_text
        (new_StupidBackoffModel 0 (new_AdvancedTokenizer None None) new_NGramStore))) = 0
   \<and> PPMModel_predict (PPMModel_train [''a'', ''b''] (new_PPMModel 0)) [''a'']
       = [(''a'', 1 / 4), (''b'', 1 / 4)]"
proof -
  have "PPMModel_predict (PPMModel_train [''a'', ''b''] (new_PPMModel 0)) [''a'']
        = [(''a'', 1 / 4), (''b'', 1 / 4)]"
    by (simp add: PPMModel_train_def new_PPMModel_def new_ContextNode_def set_add_def js_slice_def
        addToken_def upto.simps PPMModel_predict_def PPMModel_predict_with_def js_slice_from_def
        below_cutoff_def CUTOFF_def distinctCount_def node_step_def handleOrderMinusOne_def)
  moreover have "train_tokens 0 ts s = s" for ts s
  proof -
    have "fold (train_position 0 ts) is s = s" for "is"
      by (induction "is") (simp_all add: train_position_def)
    then show ?thesis by (simp add: train_tokens_def)
  qed
  ultimately show ?thesis
    by (simp add: new_PPM_def new_StupidBackoffModel_def train_store getTotalTokens_def
        new_NGramStore_def)
qed

end
